theory Spec2Isabelle
  imports Complex_Main "HOL-Library.Word"
begin

section \<open>Numbers of the program\<close>

text \<open>
  \<^verbatim>\<open>size_t\<close> is a 64-bit unsigned integer whose arithmetic wraps around. Counters
  (\<^verbatim>\<open>m\<close>, \<^verbatim>\<open>m_k\<close>, \<^verbatim>\<open>n_jt\<close>, \<^verbatim>\<open>n_jtv\<close>) are words, since the code decrements
  them. Table, dish, vocabulary and document ids are only ever used as indices and compared,
  never computed with, so they are natural numbers.
\<close>

type_synonym size_t = "64 word"

text \<open>
  \<^verbatim>\<open>float\<close>: a value is a finite number, an infinity or NaN. Arithmetic on finite values
  is exact: rounding, overflow to an infinity and the sign of zero are not modelled.
  Infinities and NaN arise and propagate as in IEEE 754 (division by zero, \<open>0/0\<close>,
  \<open>\<infinity> - \<infinity>\<close>, \<open>0 \<times> \<infinity>\<close>); every comparison with NaN is false.
\<close>

datatype float = Fin real | PInf | NInf | NaN

fun isfinite :: "float \<Rightarrow> bool" where
  "isfinite (Fin a) = True"
| "isfinite PInf = False"
| "isfinite NInf = False"
| "isfinite NaN = False"

fun fneg :: "float \<Rightarrow> float" where
  "fneg (Fin a) = Fin (- a)"
| "fneg PInf = NInf"
| "fneg NInf = PInf"
| "fneg NaN = NaN"

fun fadd :: "float \<Rightarrow> float \<Rightarrow> float" where
  "fadd NaN y = NaN"
| "fadd x NaN = NaN"
| "fadd (Fin a) (Fin b) = Fin (a + b)"
| "fadd PInf NInf = NaN"
| "fadd NInf PInf = NaN"
| "fadd PInf y = PInf"
| "fadd NInf y = NInf"
| "fadd (Fin a) y = y"

definition fsub :: "float \<Rightarrow> float \<Rightarrow> float" where
  "fsub x y = fadd x (fneg y)"

fun fmul :: "float \<Rightarrow> float \<Rightarrow> float" where
  "fmul NaN y = NaN"
| "fmul x NaN = NaN"
| "fmul (Fin a) (Fin b) = Fin (a * b)"
| "fmul (Fin a) PInf = (if a = 0 then NaN else if 0 < a then PInf else NInf)"
| "fmul (Fin a) NInf = (if a = 0 then NaN else if 0 < a then NInf else PInf)"
| "fmul PInf (Fin b) = (if b = 0 then NaN else if 0 < b then PInf else NInf)"
| "fmul NInf (Fin b) = (if b = 0 then NaN else if 0 < b then NInf else PInf)"
| "fmul PInf PInf = PInf"
| "fmul PInf NInf = NInf"
| "fmul NInf PInf = NInf"
| "fmul NInf NInf = PInf"

fun fdiv :: "float \<Rightarrow> float \<Rightarrow> float" where
  "fdiv NaN y = NaN"
| "fdiv x NaN = NaN"
| "fdiv (Fin a) (Fin b) =
     (if b \<noteq> 0 then Fin (a / b)
      else if a = 0 then NaN else if 0 < a then PInf else NInf)"
| "fdiv (Fin a) y = Fin 0"
| "fdiv PInf (Fin b) = (if 0 \<le> b then PInf else NInf)"
| "fdiv NInf (Fin b) = (if 0 \<le> b then NInf else PInf)"
| "fdiv x y = NaN"

fun flt :: "float \<Rightarrow> float \<Rightarrow> bool" where
  "flt NaN y = False"
| "flt x NaN = False"
| "flt (Fin a) (Fin b) = (a < b)"
| "flt x NInf = False"
| "flt PInf y = False"
| "flt x y = True"

fun feq :: "float \<Rightarrow> float \<Rightarrow> bool" where
  "feq NaN y = False"
| "feq x NaN = False"
| "feq x y = (x = y)"

fun fabs :: "float \<Rightarrow> float" where
  "fabs (Fin a) = Fin \<bar>a\<bar>"
| "fabs PInf = PInf"
| "fabs NInf = PInf"
| "fabs NaN = NaN"

fun fexp :: "float \<Rightarrow> float" where
  "fexp (Fin a) = Fin (exp a)"
| "fexp PInf = PInf"
| "fexp NInf = Fin 0"
| "fexp NaN = NaN"

text \<open>Conversions \<^verbatim>\<open>size_t\<close> \<open>\<rightarrow>\<close> \<^verbatim>\<open>float\<close>, for a counter and for a size or id.\<close>

definition of_size :: "size_t \<Rightarrow> float" where
  "of_size w = Fin (real (unat w))"

definition of_index :: "nat \<Rightarrow> float" where
  "of_index n = Fin (real n)"

text \<open>\<^verbatim>\<open>Eigen\<close>: \<^verbatim>\<open>v.sum()\<close>, \<^verbatim>\<open>a.dot(b)\<close> and \<^verbatim>\<open>v /= c\<close>.\<close>

definition fsum :: "float list \<Rightarrow> float" where
  "fsum xs = foldl fadd (Fin 0) xs"

definition fdot :: "float list \<Rightarrow> float list \<Rightarrow> float" where
  "fdot xs ys = fsum (map (\<lambda>(x, y). fmul x y) (zip xs ys))"

definition vec_div :: "float list \<Rightarrow> float \<Rightarrow> float list" where
  "vec_div xs c = map (\<lambda>x. fdiv x c) xs"

section \<open>Failures\<close>

text \<open>
  Every way the C++ stops is a value: an index outside a vector (undefined behaviour in the
  source, \<open>OutOfRange\<close> here), a failed \<^verbatim>\<open>assert\<close> (asserts are compiled in),
  a \<^verbatim>\<open>std::runtime_error\<close> thrown by a check macro, and a rejected probability vector.
\<close>

datatype error = OutOfRange | AssertFailed | RuntimeError string | InvariantViolation

definition rbind :: "error + 'a \<Rightarrow> ('a \<Rightarrow> error + 'b) \<Rightarrow> error + 'b" where
  "rbind r f = (case r of Inl e \<Rightarrow> Inl e | Inr x \<Rightarrow> f x)"

definition failed :: "error + 'a \<Rightarrow> bool" where
  "failed r = (case r of Inl e \<Rightarrow> True | Inr x \<Rightarrow> False)"

definition assert_that :: "bool \<Rightarrow> error + unit" where
  "assert_that b = (if b then Inr () else Inl AssertFailed)"

text \<open>\<^verbatim>\<open>xs[i]\<close>, \<^verbatim>\<open>xss[j][t]\<close> read, and \<^verbatim>\<open>xs[i] = f(xs[i])\<close>, \<^verbatim>\<open>xss[j][t] = f(xss[j][t])\<close>.\<close>

definition at_index :: "'a list \<Rightarrow> nat \<Rightarrow> error + 'a" where
  "at_index xs i = (if i < length xs then Inr (xs ! i) else Inl OutOfRange)"

definition at_index2 :: "'a list list \<Rightarrow> nat \<Rightarrow> nat \<Rightarrow> error + 'a" where
  "at_index2 xss j t = rbind (at_index xss j) (\<lambda>xs. at_index xs t)"

definition modify :: "'a list \<Rightarrow> nat \<Rightarrow> ('a \<Rightarrow> 'a) \<Rightarrow> error + 'a list" where
  "modify xs i f = (if i < length xs then Inr (xs[i := f (xs ! i)]) else Inl OutOfRange)"

definition modify2 :: "'a list list \<Rightarrow> nat \<Rightarrow> nat \<Rightarrow> ('a \<Rightarrow> 'a) \<Rightarrow> error + 'a list list" where
  "modify2 xss j t f =
     (if j < length xss \<and> t < length (xss ! j)
      then Inr (xss[j := (xss ! j)[t := f (xss ! j ! t)]])
      else Inl OutOfRange)"

text \<open>A loop over a sequence that stops at the first failure: collecting results, and
  threading the state.\<close>

primrec for_each :: "('a \<Rightarrow> error + 'b) \<Rightarrow> 'a list \<Rightarrow> error + 'b list" where
  "for_each f [] = Inr []"
| "for_each f (x # xs) =
     (case f x of
        Inl e \<Rightarrow> Inl e
      | Inr y \<Rightarrow> (case for_each f xs of Inl e \<Rightarrow> Inl e | Inr ys \<Rightarrow> Inr (y # ys)))"

primrec run_each :: "('a \<Rightarrow> 's \<Rightarrow> error + 's) \<Rightarrow> 'a list \<Rightarrow> 's \<Rightarrow> error + 's" where
  "run_each f [] s = Inr s"
| "run_each f (x # xs) s =
     (case f x s of Inl e \<Rightarrow> Inl e | Inr s' \<Rightarrow> run_each f xs s')"

section \<open>Containers of \<^verbatim>\<open>util.hpp\<close>\<close>

text \<open>
  \<^verbatim>\<open>model.hpp\<close> calls the functions of this header through the namespace \<^verbatim>\<open>util\<close>
  (\<^verbatim>\<open>util::removeFirst\<close>, \<^verbatim>\<open>util::normalize\<close>, \<^verbatim>\<open>util::defaultdict\<close>); the header under
  \<^verbatim>\<open>src/\<close> declares them in the namespace \<^verbatim>\<open>lda_util\<close>.
\<close>

text \<open>
  A \<^verbatim>\<open>std::map<size_t, T>\<close> is the list of its entries in key order, which is the order a
  range-for visits them in. \<open>map_subscript k z f\<close> is \<^verbatim>\<open>mp[k] = f(mp[k])\<close>: \<^verbatim>\<open>operator[]\<close>
  finds the entry of the key, or first inserts one at the key's place with the
  value-initialised \<open>z\<close>.
\<close>

definition map_subscript :: "nat \<Rightarrow> 'v \<Rightarrow> ('v \<Rightarrow> 'v) \<Rightarrow> (nat \<times> 'v) list \<Rightarrow> (nat \<times> 'v) list" where
  "map_subscript k z f mp =
     (if map_of mp k = None then insort_key fst (k, f z) mp
      else map (\<lambda>(k', v). if k' = k then (k', f v) else (k', v)) mp)"

text \<open>Reading \<^verbatim>\<open>mp[k]\<close> of a counter map: an absent key reads as \<open>0\<close>.\<close>

definition map_read :: "(nat \<times> size_t) list \<Rightarrow> nat \<Rightarrow> size_t" where
  "map_read mp k = (case map_of mp k of Some c \<Rightarrow> c | None \<Rightarrow> 0)"

text \<open>\<^verbatim>\<open>removeFirst(v, element)\<close> erases the first occurrence, if any: it is \<^const>\<open>remove1\<close>.\<close>

definition removeFirst :: "'a list \<Rightarrow> 'a \<Rightarrow> 'a list" where
  "removeFirst v element = remove1 element v"

text \<open>\<^verbatim>\<open>defaultdict<size_t, float>\<close>.\<close>

record defaultdict =
  default_value :: float
  map_dd :: "(nat \<times> float) list"

definition defaultdict_new :: "float \<Rightarrow> defaultdict" where
  "defaultdict_new val = \<lparr>default_value = val, map_dd = []\<rparr>"

definition defaultdict_contains :: "defaultdict \<Rightarrow> nat \<Rightarrow> bool" where
  "defaultdict_contains d t = (map_of (map_dd d) t \<noteq> None)"

definition defaultdict_get :: "defaultdict \<Rightarrow> nat \<Rightarrow> float" where
  "defaultdict_get d t = (case map_of (map_dd d) t of Some x \<Rightarrow> x | None \<Rightarrow> default_value d)"

definition defaultdict_set :: "defaultdict \<Rightarrow> nat \<Rightarrow> float \<Rightarrow> defaultdict" where
  "defaultdict_set d t j = d\<lparr>map_dd := map_subscript t (Fin 0) (\<lambda>_. j) (map_dd d)\<rparr>"

definition defaultdict_incr :: "defaultdict \<Rightarrow> nat \<Rightarrow> float \<Rightarrow> defaultdict" where
  "defaultdict_incr d t by' =
     (if defaultdict_contains d t
      then d\<lparr>map_dd := map_subscript t (Fin 0) (\<lambda>x. fadd x by') (map_dd d)\<rparr>
      else d\<lparr>map_dd := map_subscript t (Fin 0) (\<lambda>_. fadd by' (default_value d)) (map_dd d)\<rparr>)"

definition defaultdict_decr :: "defaultdict \<Rightarrow> nat \<Rightarrow> float \<Rightarrow> defaultdict" where
  "defaultdict_decr d t by' =
     (if defaultdict_contains d t
      then d\<lparr>map_dd := map_subscript t (Fin 0) (\<lambda>x. fsub x by') (map_dd d)\<rparr>
      else d\<lparr>map_dd := map_subscript t (Fin 0) (\<lambda>_. fsub (default_value d) by') (map_dd d)\<rparr>)"

text \<open>\<^verbatim>\<open>valid_probability_vector\<close>: the loop returns at the first entry that is not finite or
  is negative, and otherwise accumulates \<^verbatim>\<open>sum\<close> (here \<open>acc\<close>).\<close>

fun valid_probability_loop :: "float \<Rightarrow> float list \<Rightarrow> bool" where
  "valid_probability_loop acc [] = flt (fabs (fsub (Fin 1) acc)) (Fin (1 / 100))"
| "valid_probability_loop acc (x # p) =
     (if isfinite x = False then False
      else if flt x (Fin 0) then False
      else valid_probability_loop (fadd acc x) p)"

definition valid_probability_vector :: "float list \<Rightarrow> bool" where
  "valid_probability_vector p = valid_probability_loop (Fin 0) p"

text \<open>\<^verbatim>\<open>normalize(v)\<close>: \<^verbatim>\<open>vec /= vec.sum()\<close>.\<close>

definition normalize :: "float list \<Rightarrow> float list" where
  "normalize v = vec_div v (fsum v)"

section \<open>The state of \<^verbatim>\<open>model.hpp\<close>\<close>

text \<open>
  Modelled from the spec: the macro \<^verbatim>\<open>MICROSCOPES_DCHECK(expr, msg)\<close> is declared in
  \<^verbatim>\<open>microscopes/common/assert.hpp\<close>, which is not among the sources. A failed check is the
  spec's invalid-configuration error, a \<^verbatim>\<open>std::runtime_error\<close> carrying the message. Whether
  the build compiles the debug checks in is the parameter \<open>enabled\<close>.
\<close>

definition MICROSCOPES_DCHECK :: "bool \<Rightarrow> bool \<Rightarrow> string \<Rightarrow> error + unit" where
  "MICROSCOPES_DCHECK enabled expr msg =
     (if enabled \<and> \<not> expr then Inl (RuntimeError msg) else Inr ())"

record model_definition =
  def_n :: nat
  def_v :: nat

definition model_definition :: "bool \<Rightarrow> nat \<Rightarrow> nat \<Rightarrow> error + model_definition" where
  "model_definition enabled n v =
     rbind (MICROSCOPES_DCHECK enabled (n > 0) ''no docs'') (\<lambda>_.
     rbind (MICROSCOPES_DCHECK enabled (v > 0) ''no terms'') (\<lambda>_.
     Inr \<lparr>def_n = n, def_v = v\<rparr>))"

text \<open>The fields of \<^verbatim>\<open>class state\<close>, in the order of the source. A name ending in an
  underscore in the source ends in a prime here (\<^verbatim>\<open>dishes_\<close> is \<open>dishes'\<close>), and the fields
  \<^verbatim>\<open>n_\<close>, \<^verbatim>\<open>v_\<close> of the model definition are \<open>def_n\<close>, \<open>def_v\<close>. \<open>'r\<close> is \<^verbatim>\<open>common::rng_t\<close>.\<close>

record 'r state =
  V :: nat
  m :: size_t
  alpha' :: float
  beta' :: float
  gamma' :: float
  rng' :: 'r
  using_t :: "nat list list"
  dishes' :: "nat list"
  x_ji :: "nat list list"
  k_jt :: "nat list list"
  n_jt :: "size_t list list"
  n_jtv :: "(nat \<times> size_t) list list list"
  m_k :: "size_t list"
  n_k :: defaultdict
  n_kv' :: "defaultdict list"
  t_ji :: "nat list list"

text \<open>
  The constructor \<^verbatim>\<open>state::state(def, alpha, beta, gamma, docs, rng)\<close>. It has no check and
  no way to fail: the three hyperparameters are stored as they come.
\<close>

definition state_ctor ::
  "model_definition \<Rightarrow> float \<Rightarrow> float \<Rightarrow> float \<Rightarrow> nat list list \<Rightarrow> 'r \<Rightarrow> 'r state" where
  "state_ctor def alpha beta gamma docs rng =
     \<lparr>V = def_v def,
      m = 0,
      alpha' = alpha,
      beta' = beta,
      gamma' = gamma,
      rng' = rng,
      using_t = map (\<lambda>_. [0]) docs,
      dishes' = [0],
      x_ji = docs,
      k_jt = map (\<lambda>_. [0]) docs,
      n_jt = map (\<lambda>_. [0]) docs,
      n_jtv = map (\<lambda>u. map (\<lambda>_. []) u) (map (\<lambda>_. [0::nat]) docs),
      m_k = [1],
      n_k = defaultdict_new (fmul beta (of_index (def_v def))),
      n_kv' = [defaultdict_new beta],
      t_ji = map (\<lambda>d. replicate (length d) 0) docs\<rparr>"

text \<open>Building a state as the tests do: the definition, then the state.\<close>

definition construct ::
  "bool \<Rightarrow> nat \<Rightarrow> nat \<Rightarrow> float \<Rightarrow> float \<Rightarrow> float \<Rightarrow> nat list list \<Rightarrow> 'r \<Rightarrow> error + 'r state" where
  "construct enabled n v alpha beta gamma docs rng =
     rbind (model_definition enabled n v) (\<lambda>def.
     Inr (state_ctor def alpha beta gamma docs rng))"

text \<open>
  The accessors \<^verbatim>\<open>dish_assignments()\<close> and \<^verbatim>\<open>table_assignments()\<close>: a check that always
  fails, then an empty vector.
\<close>

definition dish_assignments :: "bool \<Rightarrow> 'r state \<Rightarrow> error + (nat \<times> nat) list list" where
  "dish_assignments enabled s =
     rbind (MICROSCOPES_DCHECK enabled False ''dish_assignments not implemented'') (\<lambda>_.
     Inr [])"

definition table_assignments :: "bool \<Rightarrow> 'r state \<Rightarrow> error + nat list list" where
  "table_assignments enabled s =
     rbind (MICROSCOPES_DCHECK enabled False ''table_assignments not implemented'') (\<lambda>_.
     Inr [])"

text \<open>\<^verbatim>\<open>score_assignment() const\<close> and \<^verbatim>\<open>score_data(rng) const\<close>: the value returned and the
  state after the call.\<close>

definition score_assignment :: "'r state \<Rightarrow> float \<times> 'r state" where
  "score_assignment s = (Fin 0, s)"

definition score_data :: "'r state \<Rightarrow> 'r \<Rightarrow> float \<times> 'r state" where
  "score_data s rng = (Fin 0, s)"

section \<open>Creating and destroying tables and dishes\<close>

text \<open>
  The search loop shared by \<^verbatim>\<open>create_dish\<close> and \<^verbatim>\<open>create_table\<close>: the first index \<open>i\<close>
  with \<^verbatim>\<open>i != ids[i]\<close>, and the size of the vector when there is none.
\<close>

fun first_mismatch :: "nat \<Rightarrow> nat list \<Rightarrow> nat" where
  "first_mismatch i [] = i"
| "first_mismatch i (d # ds) = (if i \<noteq> d then i else first_mismatch (Suc i) ds)"

text \<open>\<^verbatim>\<open>v.insert(v.begin() + pos, x)\<close>.\<close>

definition insert_at :: "nat \<Rightarrow> 'a \<Rightarrow> 'a list \<Rightarrow> 'a list" where
  "insert_at pos x v = take pos v @ [x] @ drop pos v"

text \<open>\<^verbatim>\<open>delete_dish(did)\<close> and \<^verbatim>\<open>delete_table(eid, tid)\<close> (model.hpp, lines 520 to 536). The
  assertion \<^verbatim>\<open>m_k[k] >= 0\<close> on an unsigned counter cannot fail and is left out.\<close>

definition delete_dish :: "'r state \<Rightarrow> nat \<Rightarrow> 'r state" where
  "delete_dish s did = s\<lparr>dishes' := removeFirst (dishes' s) did\<rparr>"

definition delete_table :: "'r state \<Rightarrow> nat \<Rightarrow> nat \<Rightarrow> error + 'r state" where
  "delete_table s eid tid =
     rbind (at_index2 (k_jt s) eid tid) (\<lambda>k.
     rbind (modify (using_t s) eid (\<lambda>u. removeFirst u tid)) (\<lambda>using_t1.
     rbind (modify (m_k s) k (\<lambda>c. c - 1)) (\<lambda>m_k1.
     let s1 = s\<lparr>using_t := using_t1, m_k := m_k1, m := m s - 1\<rparr> in
     if m_k1 ! k = 0 then Inr (delete_dish s1 k) else Inr s1)))"

text \<open>\<^verbatim>\<open>remove_table(eid, tid)\<close> (lines 493 to 512).\<close>

definition remove_table :: "'r state \<Rightarrow> nat \<Rightarrow> nat \<Rightarrow> error + 'r state" where
  "remove_table s eid tid =
     rbind (at_index2 (t_ji s) eid tid) (\<lambda>t.
     if t > 0 then
       rbind (at_index2 (k_jt s) eid t) (\<lambda>k.
       rbind (assert_that (k > 0)) (\<lambda>_.
       rbind (at_index2 (x_ji s) eid tid) (\<lambda>v.
       rbind (modify (n_kv' s) k (\<lambda>d. defaultdict_decr d v (Fin 1))) (\<lambda>n_kv1.
       rbind (modify2 (n_jt s) eid t (\<lambda>c. c - 1)) (\<lambda>n_jt1.
       rbind (modify2 (n_jtv s) eid t (map_subscript v 0 (\<lambda>c. c - 1))) (\<lambda>n_jtv1.
       let s1 = s\<lparr>n_kv' := n_kv1, n_k := defaultdict_decr (n_k s) k (Fin 1),
                   n_jt := n_jt1, n_jtv := n_jtv1\<rparr> in
       if n_jt1 ! eid ! t = 0 then delete_table s1 eid t else Inr s1))))))
     else Inr s)"

text \<open>\<^verbatim>\<open>add_table(ein, t_new, did)\<close> (lines 424 to 435).\<close>

definition add_table :: "'r state \<Rightarrow> nat \<Rightarrow> nat \<Rightarrow> nat \<Rightarrow> error + 'r state" where
  "add_table s ein t_new did =
     rbind (modify2 (t_ji s) ein did (\<lambda>_. t_new)) (\<lambda>t_ji1.
     rbind (modify2 (n_jt s) ein t_new (\<lambda>c. c + 1)) (\<lambda>n_jt1.
     rbind (at_index2 (k_jt s) ein t_new) (\<lambda>k_new.
     rbind (at_index2 (x_ji s) ein did) (\<lambda>v.
     rbind (modify (n_kv' s) k_new (\<lambda>d. defaultdict_incr d v (Fin 1))) (\<lambda>n_kv1.
     rbind (modify2 (n_jtv s) ein t_new (map_subscript v 0 (\<lambda>c. c + 1))) (\<lambda>n_jtv1.
     Inr (s\<lparr>t_ji := t_ji1, n_jt := n_jt1,
             n_k := defaultdict_incr (n_k s) k_new (Fin 1),
             n_kv' := n_kv1, n_jtv := n_jtv1\<rparr>)))))))"

text \<open>\<^verbatim>\<open>create_dish()\<close> (lines 437 to 462) returns the new id with the state.\<close>

definition create_dish :: "'r state \<Rightarrow> error + nat \<times> 'r state" where
  "create_dish s =
     (let k_new = first_mismatch 0 (dishes' s) in
      rbind (if k_new = length (dishes' s) then
               rbind (at_index (m_k s) 0) (\<lambda>m_k0.
               let s1 = s\<lparr>m_k := m_k s @ [m_k0],
                           n_kv' := n_kv' s @ [defaultdict_new (beta' s)]\<rparr> in
               rbind (if dishes' s = [] then Inl OutOfRange else Inr (last (dishes' s))) (\<lambda>back.
               rbind (assert_that (k_new = back + 1)) (\<lambda>_.
               rbind (assert_that (k_new < length (n_kv' s1))) (\<lambda>_.
               Inr s1))))
             else Inr s) (\<lambda>s1.
      let s2 = s1\<lparr>dishes' := insert_at k_new k_new (dishes' s1),
                   n_k := defaultdict_set (n_k s1) k_new (fmul (beta' s1) (of_index (V s1)))\<rparr> in
      rbind (modify (n_kv' s2) k_new (\<lambda>_. defaultdict_new (beta' s2))) (\<lambda>n_kv2.
      rbind (modify (m_k s2) k_new (\<lambda>_. 0)) (\<lambda>m_k2.
      Inr (k_new, s2\<lparr>n_kv' := n_kv2, m_k := m_k2\<rparr>)))))"

text \<open>\<^verbatim>\<open>create_table(ein, k_new)\<close> (lines 464 to 491) returns the new id with the state.\<close>

definition create_table :: "'r state \<Rightarrow> nat \<Rightarrow> nat \<Rightarrow> error + nat \<times> 'r state" where
  "create_table s ein k_new =
     rbind (at_index (using_t s) ein) (\<lambda>u.
     let t_new = first_mismatch 0 u in
     rbind (if t_new = length u then
              rbind (modify (n_jt s) ein (\<lambda>xs. xs @ [0])) (\<lambda>n_jt1.
              rbind (modify (k_jt s) ein (\<lambda>xs. xs @ [0])) (\<lambda>k_jt1.
              rbind (modify (n_jtv s) ein (\<lambda>xs. xs @ [[]])) (\<lambda>n_jtv1.
              Inr (s\<lparr>n_jt := n_jt1, k_jt := k_jt1, n_jtv := n_jtv1\<rparr>))))
            else Inr s) (\<lambda>s1.
     let s2 = s1\<lparr>using_t := (using_t s1)[ein := insert_at t_new t_new u]\<rparr> in
     rbind (modify2 (n_jt s2) ein t_new (\<lambda>_. 0)) (\<lambda>n_jt2.
     rbind (assert_that (k_new \<noteq> 0)) (\<lambda>_.
     rbind (modify2 (k_jt s2) ein t_new (\<lambda>_. k_new)) (\<lambda>k_jt2.
     rbind (modify (m_k s2) k_new (\<lambda>c. c + 1)) (\<lambda>m_k2.
     Inr (t_new, s2\<lparr>n_jt := n_jt2, k_jt := k_jt2, m_k := m_k2, m := m s2 + 1\<rparr>)))))))"

text \<open>\<^verbatim>\<open>leave_from_dish(j, t)\<close> (lines 287 to 299).\<close>

definition leave_from_dish :: "'r state \<Rightarrow> nat \<Rightarrow> nat \<Rightarrow> error + 'r state" where
  "leave_from_dish s j t =
     rbind (at_index2 (k_jt s) j t) (\<lambda>k.
     rbind (assert_that (k > 0)) (\<lambda>_.
     rbind (at_index (m_k s) k) (\<lambda>c.
     rbind (assert_that (c > 0)) (\<lambda>_.
     let s1 = s\<lparr>m_k := (m_k s)[k := c - 1], m := m s - 1\<rparr> in
     if m_k s1 ! k = 0 then
       rbind (modify2 (k_jt s1) j t (\<lambda>_. 0)) (\<lambda>k_jt1.
       Inr ((delete_dish s1 k)\<lparr>k_jt := k_jt1\<rparr>))
     else Inr s1))))"

text \<open>The loop of \<^verbatim>\<open>seat_at_dish\<close> over the entries \<open>(v, n)\<close> of \<^verbatim>\<open>n_jtv[j][t]\<close>.\<close>

fun seat_loop ::
  "nat \<Rightarrow> nat \<Rightarrow> (nat \<times> size_t) list \<Rightarrow> defaultdict list \<Rightarrow> error + defaultdict list" where
  "seat_loop k_old k_new [] n_kv0 = Inr n_kv0"
| "seat_loop k_old k_new ((v, n) # kvs) n_kv0 =
     (case (if k_old \<noteq> 0 then modify n_kv0 k_old (\<lambda>d. defaultdict_decr d v (of_size n))
            else Inr n_kv0) of
        Inl e \<Rightarrow> Inl e
      | Inr n_kv1 \<Rightarrow>
          (case modify n_kv1 k_new (\<lambda>d. defaultdict_incr d v (of_size n)) of
             Inl e \<Rightarrow> Inl e
           | Inr n_kv2 \<Rightarrow> seat_loop k_old k_new kvs n_kv2))"

text \<open>\<^verbatim>\<open>seat_at_dish(j, t, k_new)\<close> (lines 394 to 421).\<close>

definition seat_at_dish :: "'r state \<Rightarrow> nat \<Rightarrow> nat \<Rightarrow> nat \<Rightarrow> error + 'r state" where
  "seat_at_dish s j t k_new =
     rbind (modify (m_k s) k_new (\<lambda>c. c + 1)) (\<lambda>m_k1.
     let s1 = s\<lparr>m := m s + 1, m_k := m_k1\<rparr> in
     rbind (at_index2 (k_jt s1) j t) (\<lambda>k_old.
     if k_new \<noteq> k_old then
       rbind (assert_that (k_new \<noteq> 0)) (\<lambda>_.
       rbind (modify2 (k_jt s1) j t (\<lambda>_. k_new)) (\<lambda>k_jt1.
       rbind (at_index2 (n_jt s1) j t) (\<lambda>c.
       let n_jt_val = of_size c;
           n_k1 = (if k_old \<noteq> 0 then defaultdict_decr (n_k s1) k_old n_jt_val else n_k s1);
           n_k2 = defaultdict_incr n_k1 k_new n_jt_val in
       rbind (at_index2 (n_jtv s1) j t) (\<lambda>mp.
       rbind (seat_loop k_old k_new mp (n_kv' s1)) (\<lambda>n_kv1.
       Inr (s1\<lparr>k_jt := k_jt1, n_k := n_k2, n_kv' := n_kv1\<rparr>))))))
     else Inr s1))"

section \<open>Posteriors\<close>

text \<open>
  What the sampler takes from outside the repository: the categorical sampler
  \<^verbatim>\<open>common::util::sample_discrete(p, rng)\<close>, which returns an index and advances the
  generator, and \<^verbatim>\<open>distributions::fast_log\<close>, \<^verbatim>\<open>distributions::fast_lgamma\<close>.
\<close>

record 'r externs =
  sample_discrete :: "float list \<Rightarrow> 'r \<Rightarrow> nat \<times> 'r"
  fast_log :: "float \<Rightarrow> float"
  fast_lgamma :: "float \<Rightarrow> float"

text \<open>\<^verbatim>\<open>calc_f_k(v)\<close> (lines 549 to 560).\<close>

definition calc_f_k :: "'r state \<Rightarrow> nat \<Rightarrow> error + float list" where
  "calc_f_k s v =
     rbind (at_index (n_kv' s) 0) (\<lambda>d0.
     Inr (fdiv (fsub (defaultdict_get d0 v) (beta' s)) (defaultdict_get (n_k s) 0)
          # map (\<lambda>k. fdiv (defaultdict_get (n_kv' s ! k) v) (defaultdict_get (n_k s) k))
              [1 ..< length (n_kv' s)]))"

text \<open>
  \<^verbatim>\<open>calc_table_posterior\<close>. The loop fills every entry, the one at index 0 too, which is
  then overwritten. \<^verbatim>\<open>Eigen\<close>'s \<^verbatim>\<open>dot\<close> asserts that the two vectors have one size.
\<close>

definition calc_table_posterior :: "'r state \<Rightarrow> nat \<Rightarrow> float list \<Rightarrow> error + float list" where
  "calc_table_posterior s j f_k =
     rbind (at_index (using_t s) j) (\<lambda>using_table.
     rbind (for_each (\<lambda>p.
              rbind (at_index2 (n_jt s) j p) (\<lambda>c.
              rbind (at_index2 (k_jt s) j p) (\<lambda>k.
              rbind (at_index f_k k) (\<lambda>f.
              Inr (fmul (of_size c) f))))) using_table) (\<lambda>p_t.
     rbind (assert_that (length f_k = length (m_k s))) (\<lambda>_.
     let p_x_ji = fadd (fdiv (gamma' s) (of_index (V s))) (fdot f_k (map of_size (m_k s))) in
     rbind (modify p_t 0 (\<lambda>_. fdiv (fmul p_x_ji (alpha' s)) (fadd (gamma' s) (of_size (m s))))) (\<lambda>p_t1.
     Inr (vec_div p_t1 (fsum p_t1))))))"

text \<open>\<^verbatim>\<open>calc_dish_posterior_w(f_k)\<close> (lines 364 to 373).\<close>

definition calc_dish_posterior_w :: "'r state \<Rightarrow> float list \<Rightarrow> error + float list" where
  "calc_dish_posterior_w s f_k =
     rbind (for_each (\<lambda>d.
              rbind (at_index (m_k s) d) (\<lambda>c.
              rbind (at_index f_k d) (\<lambda>f.
              Inr (fmul (of_size c) f)))) (dishes' s)) (\<lambda>p_k.
     rbind (modify p_k 0 (\<lambda>_. fdiv (gamma' s) (of_index (V s)))) (\<lambda>p_k1.
     Inr (vec_div p_k1 (fsum p_k1))))"

text \<open>\<^verbatim>\<open>*std::max_element(first, last)\<close>: the first of the largest elements.\<close>

definition max_element :: "float list \<Rightarrow> error + float" where
  "max_element xs =
     (case xs of
        [] \<Rightarrow> Inl OutOfRange
      | x # ys \<Rightarrow> Inr (foldl (\<lambda>best y. if flt best y then y else best) x ys))"

text \<open>
  \<^verbatim>\<open>calc_dish_posterior_t\<close>, in three parts: the first loop over the dishes, the body of
  the loop over the words \<open>(w, n_jtw)\<close> of the table, and the whole function.
\<close>

definition dish_log_prior ::
  "'r externs \<Rightarrow> 'r state \<Rightarrow> nat \<Rightarrow> size_t \<Rightarrow> nat \<Rightarrow> error + float" where
  "dish_log_prior E s k_old n_jt_val k =
     (if k = 0 then Inr (Fin 0)
      else
        let n_k_val = (if k = k_old then fsub (defaultdict_get (n_k s) k) (of_size n_jt_val)
                       else defaultdict_get (n_k s) k) in
        rbind (assert_that (flt (Fin 0) n_k_val)) (\<lambda>_.
        rbind (at_index (m_k s) k) (\<lambda>c.
        let x = fsub (fadd (fast_log E (of_size c)) (fast_lgamma E n_k_val))
                     (fast_lgamma E (fadd n_k_val (of_size n_jt_val))) in
        rbind (assert_that (isfinite x)) (\<lambda>_.
        Inr x))))"

definition word_term ::
  "'r externs \<Rightarrow> 'r state \<Rightarrow> nat \<Rightarrow> nat \<times> size_t \<Rightarrow> float list \<Rightarrow> error + float list" where
  "word_term E s k_cur kv log_p_k =
     (case kv of (w, n_jtw) \<Rightarrow>
      if n_jtw = 0 then Inr log_p_k
      else
        rbind (for_each (\<lambda>(i, d).
                 rbind (at_index (n_kv' s) d) (\<lambda>dd.
                 let x = (if d = k_cur then fsub (defaultdict_get dd w) (of_size n_jtw)
                          else defaultdict_get dd w) in
                 rbind (assert_that (i = 0 \<or> flt (Fin 0) x)) (\<lambda>_.
                 Inr x)))
               (zip [0 ..< length (dishes' s)] (dishes' s))) (\<lambda>n_kw.
        rbind (modify n_kw 0 (\<lambda>_. Fin 1)) (\<lambda>n_kw1.
        (case (log_p_k, n_kw1) of
           (l0 # ls, x0 # xs) \<Rightarrow>
             Inr (fadd l0 (fsub (fast_lgamma E (fadd (beta' s) (of_size n_jtw)))
                                (fast_lgamma E (beta' s)))
                  # map (\<lambda>(l, x). fadd l (fsub (fast_lgamma E (fadd x (of_size n_jtw)))
                                               (fast_lgamma E x)))
                      (zip ls xs))
         | _ \<Rightarrow> Inl OutOfRange))))"

definition calc_dish_posterior_t ::
  "'r externs \<Rightarrow> 'r state \<Rightarrow> nat \<Rightarrow> nat \<Rightarrow> error + float list" where
  "calc_dish_posterior_t E s j t =
     rbind (at_index2 (k_jt s) j t) (\<lambda>k_old.
     rbind (at_index2 (n_jt s) j t) (\<lambda>n_jt_val.
     rbind (for_each (dish_log_prior E s k_old n_jt_val) (dishes' s)) (\<lambda>log_p_k.
     rbind (modify log_p_k 0 (\<lambda>_.
              fsub (fadd (fast_log E (gamma' s))
                         (fast_lgamma E (fmul (of_index (V s)) (beta' s))))
                   (fast_lgamma E (fadd (fmul (of_index (V s)) (beta' s)) (of_size n_jt_val)))))
           (\<lambda>log_p_k1.
     rbind (at_index2 (n_jtv s) j t) (\<lambda>mp.
     rbind (run_each (word_term E s k_old) mp log_p_k1) (\<lambda>log_p_k2.
     rbind (assert_that (list_all isfinite log_p_k2)) (\<lambda>_.
     rbind (max_element log_p_k2) (\<lambda>max_value.
     Inr (normalize (map (\<lambda>log_p_k_value. fexp (fsub log_p_k_value max_value)) log_p_k2))))))))))"

section \<open>The sweep\<close>

text \<open>
  Modelled from the spec: \<^verbatim>\<open>util::validate_probability_vector\<close> is called by
  \<^verbatim>\<open>sampling_t\<close> and \<^verbatim>\<open>sampling_k\<close> but defined in none of the sources, which only have the
  predicate \<^verbatim>\<open>valid_probability_vector\<close>. By the spec a vector that is not finite,
  non-negative and summing to 1 within 0.01 is a fatal invariant failure.
\<close>

definition validate_probability_vector :: "float list \<Rightarrow> error + unit" where
  "validate_probability_vector p =
     (if valid_probability_vector p then Inr () else Inl InvariantViolation)"

text \<open>\<^verbatim>\<open>sampling_t(j, i)\<close> (lines 246 to 270) and \<^verbatim>\<open>sampling_k(j, t)\<close> (lines 272 to 285). A draw
  returns the index and leaves the advanced generator in \<^verbatim>\<open>rng_\<close>.\<close>

definition sampling_t :: "'r externs \<Rightarrow> 'r state \<Rightarrow> nat \<Rightarrow> nat \<Rightarrow> error + 'r state" where
  "sampling_t E s j i =
     rbind (remove_table s j i) (\<lambda>s1.
     rbind (at_index2 (x_ji s1) j i) (\<lambda>v.
     rbind (calc_f_k s1 v) (\<lambda>f_k.
     rbind (assert_that (feq (hd f_k) (Fin 0))) (\<lambda>_.
     rbind (calc_table_posterior s1 j f_k) (\<lambda>p_t.
     rbind (validate_probability_vector p_t) (\<lambda>_.
     case sample_discrete E p_t (rng' s1) of (word, r1) \<Rightarrow>
     let s2 = s1\<lparr>rng' := r1\<rparr> in
     rbind (at_index2 (using_t s2) j word) (\<lambda>t_new.
     rbind (if t_new = 0 then
              rbind (calc_dish_posterior_w s2 f_k) (\<lambda>p_k.
              rbind (validate_probability_vector p_k) (\<lambda>_.
              case sample_discrete E p_k (rng' s2) of (topic_index, r2) \<Rightarrow>
              let s3 = s2\<lparr>rng' := r2\<rparr> in
              rbind (at_index (dishes' s3) topic_index) (\<lambda>k_new.
              rbind (if k_new = 0 then create_dish s3 else Inr (k_new, s3)) (\<lambda>(k_new1, s4).
              create_table s4 j k_new1))))
            else Inr (t_new, s2)) (\<lambda>(t_new1, s5).
     add_table s5 j t_new1 i))))))))"

definition sampling_k :: "'r externs \<Rightarrow> 'r state \<Rightarrow> nat \<Rightarrow> nat \<Rightarrow> error + 'r state" where
  "sampling_k E s j t =
     rbind (leave_from_dish s j t) (\<lambda>s1.
     rbind (calc_dish_posterior_t E s1 j t) (\<lambda>p_k.
     rbind (validate_probability_vector p_k) (\<lambda>_.
     rbind (assert_that (length (dishes' s1) = length p_k)) (\<lambda>_.
     case sample_discrete E p_k (rng' s1) of (topic_index, r1) \<Rightarrow>
     let s2 = s1\<lparr>rng' := r1\<rparr> in
     rbind (at_index (dishes' s2) topic_index) (\<lambda>k_new.
     rbind (if k_new = 0 then create_dish s2 else Inr (k_new, s2)) (\<lambda>(k_new1, s3).
     seat_at_dish s3 j t k_new1))))))"

text \<open>
  \<^verbatim>\<open>_inference\<close>: the two loop nests. The second iterates over \<^verbatim>\<open>using_t[j]\<close> while
  \<^verbatim>\<open>sampling_k\<close> runs; \<^verbatim>\<open>sampling_k\<close> never writes \<^verbatim>\<open>using_t\<close>, so the loop visits the
  table ids the vector holds when the loop over document \<open>j\<close> starts.
\<close>

definition word_phase :: "'r externs \<Rightarrow> 'r state \<Rightarrow> error + 'r state" where
  "word_phase E s =
     run_each (\<lambda>j s1.
       rbind (at_index (x_ji s1) j) (\<lambda>doc.
       run_each (\<lambda>i s2. sampling_t E s2 j i) [0 ..< length doc] s1))
     [0 ..< length (x_ji s)] s"

definition table_phase :: "'r externs \<Rightarrow> 'r state \<Rightarrow> error + 'r state" where
  "table_phase E s =
     run_each (\<lambda>j s1.
       rbind (at_index (using_t s1) j) (\<lambda>tables.
       run_each (\<lambda>t s2. if t \<noteq> 0 then sampling_k E s2 j t else Inr s2) tables s1))
     [0 ..< length (x_ji s)] s"

definition inference :: "'r externs \<Rightarrow> 'r state \<Rightarrow> error + 'r state" where
  "inference E s = rbind (word_phase E s) (\<lambda>s1. table_phase E s1)"

section \<open>States used as examples\<close>

text \<open>Scenario A of the tests, right after construction: every word is unassigned.\<close>

definition scenario_a :: "unit state" where
  "scenario_a =
     state_ctor \<lparr>def_n = 3, def_v = 7\<rparr> (Fin (1 / 5)) (Fin (1 / 100)) (Fin (1 / 2))
       [[0, 1, 2, 3], [0, 1, 4, 5], [0, 1, 5, 6]] ()"

text \<open>
  Three documents \<open>[0, 1]\<close>, \<open>[0]\<close>, \<open>[1]\<close> over a vocabulary of two words, with
  \<open>\<beta> = 1/2\<close>: each document has one table; the tables of the first two documents serve
  dish 1 and the table of the third serves dish 2.
\<close>

definition seated :: "unit state" where
  "seated =
     \<lparr>V = 2, m = 3, alpha' = Fin 1, beta' = Fin (1 / 2), gamma' = Fin 1, rng' = (),
      using_t = [[0, 1], [0, 1], [0, 1]], dishes' = [0, 1, 2], x_ji = [[0, 1], [0], [1]],
      k_jt = [[0, 1], [0, 1], [0, 2]], n_jt = [[0, 2], [0, 1], [0, 1]],
      n_jtv = [[[], [(0, 1), (1, 1)]], [[], [(0, 1)]], [[], [(1, 1)]]],
      m_k = [1, 2, 1],
      n_k = \<lparr>default_value = Fin 1, map_dd = [(1, Fin 4), (2, Fin 2)]\<rparr>,
      n_kv' = [\<lparr>default_value = Fin (1 / 2), map_dd = []\<rparr>,
               \<lparr>default_value = Fin (1 / 2), map_dd = [(0, Fin (5 / 2)), (1, Fin (3 / 2))]\<rparr>,
               \<lparr>default_value = Fin (1 / 2), map_dd = [(1, Fin (3 / 2))]\<rparr>],
      t_ji = [[1, 1], [1], [1]]\<rparr>"

section \<open>Properties stated about the state\<close>

text \<open>Detaching a word and attaching it again to the table it sat at.\<close>

definition detach_attach :: "'r state \<Rightarrow> nat \<Rightarrow> nat \<Rightarrow> error + 'r state" where
  "detach_attach s j i =
     rbind (at_index2 (t_ji s) j i) (\<lambda>t.
     rbind (remove_table s j i) (\<lambda>s1.
     add_table s1 j t i))"

text \<open>
  Two states hold the same counts: the vectors are equal, and every counter of a map or of a
  \<^verbatim>\<open>defaultdict\<close> reads the same (\<^verbatim>\<open>mp[w]\<close>, \<^verbatim>\<open>d.get(k)\<close>).
\<close>

definition same_counts :: "'r state \<Rightarrow> 'r state \<Rightarrow> bool" where
  "same_counts a b \<longleftrightarrow>
     n_jt a = n_jt b \<and>
     map (map map_read) (n_jtv a) = map (map map_read) (n_jtv b) \<and>
     defaultdict_get (n_k a) = defaultdict_get (n_k b) \<and>
     map defaultdict_get (n_kv' a) = map defaultdict_get (n_kv' b) \<and>
     m_k a = m_k b \<and> m a = m b \<and> t_ji a = t_ji b \<and>
     using_t a = using_t b \<and> dishes' a = dishes' b"

text \<open>
  The active dishes and the active tables of a document are kept as a strictly increasing
  sequence that starts with the sentinel 0.
\<close>

definition sorted_ids :: "nat list \<Rightarrow> bool" where
  "sorted_ids ids \<longleftrightarrow> ids \<noteq> [] \<and> hd ids = 0 \<and> sorted_wrt (<) ids"

text \<open>\<open>k\<close> is the lowest positive integer that is not in the sequence.\<close>

definition lowest_unused :: "nat \<Rightarrow> nat list \<Rightarrow> bool" where
  "lowest_unused k ids \<longleftrightarrow> 0 < k \<and> k \<notin> set ids \<and> (\<forall>n. 0 < n \<and> n < k \<longrightarrow> n \<in> set ids)"

definition ids_sorted :: "'r state \<Rightarrow> bool" where
  "ids_sorted s \<longleftrightarrow> sorted_ids (dishes' s) \<and> list_all sorted_ids (using_t s)"

text \<open>
  The vectors indexed by dish id, by document and by table id are long enough for the ids
  in use.
\<close>

definition dish_shape :: "'r state \<Rightarrow> bool" where
  "dish_shape s \<longleftrightarrow>
     length (n_kv' s) = length (m_k s) \<and> list_all (\<lambda>k. k < length (m_k s)) (dishes' s)"

definition doc_shape :: "'r state \<Rightarrow> bool" where
  "doc_shape s \<longleftrightarrow>
     length (using_t s) = length (x_ji s) \<and> length (n_jt s) = length (x_ji s) \<and>
     map length (k_jt s) = map length (n_jt s) \<and>
     map length (n_jtv s) = map length (n_jt s) \<and>
     (\<forall>j<length (x_ji s). list_all (\<lambda>t. t < length (n_jt s ! j)) (using_t s ! j))"

definition shape_ok :: "'r state \<Rightarrow> bool" where
  "shape_ok s \<longleftrightarrow> ids_sorted s \<and> dish_shape s \<and> doc_shape s"

text \<open>
  The reachable states: the states the constructor builds, and every state that the
  operations the sweep is made of lead to from a reachable state when they return, in any
  order and with any arguments, together with the draws that advance the generator.
\<close>

inductive reachable :: "'r state \<Rightarrow> bool" where
  init: "reachable (state_ctor def alpha beta gamma docs rng)"
| detach: "reachable s \<Longrightarrow> remove_table s j i = Inr s' \<Longrightarrow> reachable s'"
| attach: "reachable s \<Longrightarrow> add_table s j t i = Inr s' \<Longrightarrow> reachable s'"
| new_dish: "reachable s \<Longrightarrow> create_dish s = Inr (k, s') \<Longrightarrow> reachable s'"
| new_table: "reachable s \<Longrightarrow> create_table s j k = Inr (t, s') \<Longrightarrow> reachable s'"
| leave: "reachable s \<Longrightarrow> leave_from_dish s j t = Inr s' \<Longrightarrow> reachable s'"
| seat: "reachable s \<Longrightarrow> seat_at_dish s j t k = Inr s' \<Longrightarrow> reachable s'"
| draw: "reachable s \<Longrightarrow> reachable (s\<lparr>rng' := r\<rparr>)"

text \<open>
  The steps of a sweep in the order the two loop nests take them: the words \<open>(j, i)\<close>,
  document by document, and the tables \<open>(j, t)\<close> of the active tables of every document,
  the sentinel left out.
\<close>

definition word_positions :: "'r state \<Rightarrow> (nat \<times> nat) list" where
  "word_positions s =
     concat (map (\<lambda>j. map (Pair j) [0 ..< length (x_ji s ! j)]) [0 ..< length (x_ji s)])"

definition table_positions :: "'r state \<Rightarrow> (nat \<times> nat) list" where
  "table_positions s =
     filter (\<lambda>(j, t). t \<noteq> 0)
       (concat (map (\<lambda>j. map (Pair j) (using_t s ! j)) [0 ..< length (x_ji s)]))"

text \<open>
  Stand-ins for the outside functions, for running the sampler on an example: the sampler
  always draws index 0 and leaves the generator alone, and the two special functions are
  constantly 0.
\<close>

definition first_index_sampler :: "unit externs" where
  "first_index_sampler =
     \<lparr>sample_discrete = (\<lambda>p r. (0, r)), fast_log = (\<lambda>x. Fin 0), fast_lgamma = (\<lambda>x. Fin 0)\<rparr>"

text \<open>
  Three samplers on a generator that counts its draws: the first always draws index 0, the
  second draws index 0 from a vector of at most two entries and index 1 from a longer one,
  the third draws the last index. Their special functions are constantly 0.
\<close>

definition counting_sampler :: "nat externs" where
  "counting_sampler =
     \<lparr>sample_discrete = (\<lambda>p r. (0, Suc r)), fast_log = (\<lambda>x. Fin 0), fast_lgamma = (\<lambda>x. Fin 0)\<rparr>"

definition short_vector_sampler :: "nat externs" where
  "short_vector_sampler =
     \<lparr>sample_discrete = (\<lambda>p r. (if length p \<le> 2 then 0 else 1, Suc r)),
      fast_log = (\<lambda>x. Fin 0), fast_lgamma = (\<lambda>x. Fin 0)\<rparr>"

definition last_index_sampler :: "nat externs" where
  "last_index_sampler =
     \<lparr>sample_discrete = (\<lambda>p r. (length p - 1, Suc r)),
      fast_log = (\<lambda>x. Fin 0), fast_lgamma = (\<lambda>x. Fin 0)\<rparr>"

text \<open>
  One document that holds the only word of the vocabulary twice, right after construction.
\<close>

definition two_words :: "nat state" where
  "two_words = state_ctor \<lparr>def_n = 1, def_v = 1\<rparr> (Fin 1) (Fin (1 / 2)) (Fin 1) [[0, 0]] 0"

text \<open>
  The draws of a run. Nothing is known of the sampler but its signature, so what a run takes
  from it is recorded: the generator is paired with the list of the draws served so far, and
  a draw of \<open>logged E\<close> is the draw of \<open>E\<close> on the generator, with its outcome, the index
  drawn and the generator the draw leaves, appended to the list. \<open>draws s\<close> reads the list,
  \<open>with_generator s g\<close> is the state \<open>s\<close> with \<open>g\<close> in the place of its generator, and
  \<open>unlogged s\<close> drops the list. \<open>sweep_draws E s\<close> is the list of the draws that the sweep
  from \<open>s\<close> takes from the sampler \<open>E\<close>, in the order the sweep takes them (and the empty
  list if the sweep fails).
\<close>

definition logged :: "'r externs \<Rightarrow> ('r \<times> (nat \<times> 'r) list) externs" where
  "logged E =
     \<lparr>sample_discrete = (\<lambda>p g. case sample_discrete E p (fst g) of
          (i, r) \<Rightarrow> (i, (r, snd g @ [(i, r)]))),
      fast_log = fast_log E, fast_lgamma = fast_lgamma E\<rparr>"

definition draws :: "('r \<times> 'd list) state \<Rightarrow> 'd list" where
  "draws s = snd (rng' s)"

definition with_generator :: "'r state \<Rightarrow> 'q \<Rightarrow> 'q state" where
  "with_generator s g =
     \<lparr>V = V s, m = m s, alpha' = alpha' s, beta' = beta' s, gamma' = gamma' s, rng' = g,
      using_t = using_t s, dishes' = dishes' s, x_ji = x_ji s, k_jt = k_jt s, n_jt = n_jt s,
      n_jtv = n_jtv s, m_k = m_k s, n_k = n_k s, n_kv' = n_kv' s, t_ji = t_ji s\<rparr>"

definition unlogged :: "('r \<times> 'd list) state \<Rightarrow> 'r state" where
  "unlogged s = with_generator s (fst (rng' s))"

definition sweep_draws :: "'r externs \<Rightarrow> 'r state \<Rightarrow> (nat \<times> 'r) list" where
  "sweep_draws E s =
     (case inference (logged E) (with_generator s (rng' s, [])) of Inl e \<Rightarrow> [] | Inr a \<Rightarrow> draws a)"

text \<open>
  The table posterior in the words of the spec, over the real numbers, for finite
  hyperparameters \<open>alpha = a\<close>, \<open>gamma = g\<close> and ratios \<open>fr\<close>: the weight of the "new
  table" entry, \<open>a \<times> (g/V + fr \<bullet> m_k) / (g + m)\<close>, followed by the weight
  \<open>n_jt[j][t] \<times> fr[k_jt[j][t]]\<close> of every real active table \<open>t\<close> of the document.
\<close>

definition table_weights :: "real \<Rightarrow> real \<Rightarrow> 'r state \<Rightarrow> nat \<Rightarrow> real list \<Rightarrow> real list" where
  "table_weights a g s j fr =
     a * (g / real (V s) + sum_list (map (\<lambda>(f, c). f * real (unat c)) (zip fr (m_k s))))
       / (g + real (unat (m s)))
     # map (\<lambda>t. real (unat (n_jt s ! j ! t)) * fr ! (k_jt s ! j ! t)) (tl (using_t s ! j))"

section \<open>Basic facts\<close>

lemma rbind_Inr [simp]: "rbind (Inr x) f = f x"
  by (simp add: rbind_def)

lemma rbind_Inl [simp]: "rbind (Inl e) f = Inl e"
  by (simp add: rbind_def)

lemma rbind_eq_Inr: "rbind r f = Inr y \<longleftrightarrow> (\<exists>x. r = Inr x \<and> f x = Inr y)"
  by (cases r) simp_all

lemma assert_that_eq_Inr [simp]: "assert_that b = Inr u \<longleftrightarrow> b"
  by (simp add: assert_that_def)

lemma assert_that_True [simp]: "assert_that True = Inr ()"
  by (simp add: assert_that_def)

lemma assert_that_False [simp]: "assert_that False = Inl AssertFailed"
  by (simp add: assert_that_def)

lemma at_index_eq_Inr: "at_index xs i = Inr x \<longleftrightarrow> i < length xs \<and> x = xs ! i"
  by (auto simp: at_index_def)

lemma at_index_in [simp]: "i < length xs \<Longrightarrow> at_index xs i = Inr (xs ! i)"
  by (simp add: at_index_def)

lemma at_index_out [simp]: "\<not> i < length xs \<Longrightarrow> at_index xs i = Inl OutOfRange"
  by (simp add: at_index_def)

lemma at_index2_eq_Inr:
  "at_index2 xss j t = Inr x \<longleftrightarrow> j < length xss \<and> t < length (xss ! j) \<and> x = xss ! j ! t"
  by (auto simp: at_index2_def at_index_def)

lemma at_index2_in [simp]:
  "j < length xss \<Longrightarrow> t < length (xss ! j) \<Longrightarrow> at_index2 xss j t = Inr (xss ! j ! t)"
  by (simp add: at_index2_def)

lemma modify_eq_Inr:
  "modify xs i f = Inr ys \<longleftrightarrow> i < length xs \<and> ys = xs[i := f (xs ! i)]"
  by (auto simp: modify_def)

lemma modify_in [simp]: "i < length xs \<Longrightarrow> modify xs i f = Inr (xs[i := f (xs ! i)])"
  by (simp add: modify_def)

lemma modify2_eq_Inr:
  "modify2 xss j t f = Inr yss \<longleftrightarrow>
     j < length xss \<and> t < length (xss ! j) \<and> yss = xss[j := (xss ! j)[t := f (xss ! j ! t)]]"
  by (auto simp: modify2_def)

lemma modify2_in [simp]:
  "j < length xss \<Longrightarrow> t < length (xss ! j) \<Longrightarrow>
     modify2 xss j t f = Inr (xss[j := (xss ! j)[t := f (xss ! j ! t)]])"
  by (simp add: modify2_def)

section \<open>Detaching an unassigned word\<close>

text \<open>
  Claim C4. When the word \<open>i\<close> of document \<open>j\<close> is unassigned, that is when its entry of
  \<^verbatim>\<open>t_ji\<close> is the sentinel 0, \<^verbatim>\<open>remove_table(j, i)\<close> returns normally and leaves the whole
  state as it was.
\<close>

theorem remove_table_unassigned_noop:
  "j < length (t_ji s) \<Longrightarrow> i < length (t_ji s ! j) \<Longrightarrow> t_ji s ! j ! i = 0 \<Longrightarrow>
     remove_table s j i = Inr s"
  by (simp add: remove_table_def)

theorem remove_table_unassigned_noop_witness:
  "remove_table scenario_a 1 2 = Inr scenario_a"
  using remove_table_unassigned_noop [of 1 scenario_a 2]
  by (simp add: scenario_a_def state_ctor_def)

section \<open>Leaving a dish\<close>

text \<open>
  Claim C6, as the code has it. For a table \<open>t\<close> of document \<open>j\<close> that serves a dish
  \<open>k > 0\<close> with a positive table count, \<^verbatim>\<open>leave_from_dish(j, t)\<close> decrements \<^verbatim>\<open>m_k[k]\<close>
  and \<^verbatim>\<open>m\<close>. Only when \<^verbatim>\<open>m_k[k]\<close> has reached 0 is the dish removed from the active dishes
  and \<^verbatim>\<open>k_jt[j][t]\<close> set to the sentinel 0; otherwise \<^verbatim>\<open>k_jt[j][t]\<close> keeps the dish.
\<close>

theorem leave_from_dish_effect:
  assumes "j < length (k_jt s)" and "t < length (k_jt s ! j)" and "k_jt s ! j ! t = k"
    and "0 < k" and "k < length (m_k s)" and "m_k s ! k \<noteq> 0"
  shows "leave_from_dish s j t =
     Inr (if m_k s ! k = 1
          then s\<lparr>m_k := (m_k s)[k := 0], m := m s - 1,
                 dishes' := removeFirst (dishes' s) k,
                 k_jt := (k_jt s)[j := (k_jt s ! j)[t := 0]]\<rparr>
          else s\<lparr>m_k := (m_k s)[k := m_k s ! k - 1], m := m s - 1\<rparr>)"
  using assms
  by (simp add: leave_from_dish_def delete_dish_def word_gt_0)

text \<open>The table of the third document is the only one that serves dish 2: the dish goes.\<close>

theorem leave_from_dish_effect_witness:
  "leave_from_dish seated 2 1 =
     Inr (seated\<lparr>m_k := [1, 2, 0], m := 2, dishes' := [0, 1],
                 k_jt := [[0, 1], [0, 1], [0, 0]]\<rparr>)"
  using leave_from_dish_effect [of 2 seated 1 2]
  by (simp add: seated_def removeFirst_def)

text \<open>
  Dish 1 is served by two tables. When the table of the first document leaves it the dish
  stays, and the table's entry of \<^verbatim>\<open>k_jt\<close> is still 1, not the sentinel.
\<close>

theorem leave_from_dish_keeps_dish:
  "leave_from_dish seated 0 1 = Inr (seated\<lparr>m_k := [1, 1, 1], m := 2\<rparr>) \<and>
   k_jt (seated\<lparr>m_k := [1, 1, 1], m := 2\<rparr>) ! 0 ! 1 = 1"
  by (simp add: leave_from_dish_def seated_def)

section \<open>Construction\<close>

text \<open>
  Claim C7, as the code has it. Construction fails exactly when the debug checks are
  compiled in and the document count or the vocabulary size given to
  \<^verbatim>\<open>model_definition\<close> is 0, with the message of the check that failed. The constructor
  of the state checks nothing: no value of \<open>alpha\<close>, \<open>beta\<close> or \<open>gamma\<close> and no list of
  documents makes it fail.
\<close>

theorem construct_result:
  "construct enabled n v alpha beta gamma docs rng =
     (if enabled \<and> n = 0 then Inl (RuntimeError ''no docs'')
      else if enabled \<and> v = 0 then Inl (RuntimeError ''no terms'')
      else Inr (state_ctor \<lparr>def_n = n, def_v = v\<rparr> alpha beta gamma docs rng))"
  by (simp add: construct_def model_definition_def MICROSCOPES_DCHECK_def)

text \<open>Scenario A with \<open>alpha = 0\<close> and the checks compiled in: a state is returned.\<close>

theorem construct_accepts_zero_alpha:
  "construct True 3 7 (Fin 0) (Fin (1 / 100)) (Fin (1 / 2))
       [[0, 1, 2, 3], [0, 1, 4, 5], [0, 1, 5, 6]] () =
     Inr (state_ctor \<lparr>def_n = 3, def_v = 7\<rparr> (Fin 0) (Fin (1 / 100)) (Fin (1 / 2))
       [[0, 1, 2, 3], [0, 1, 4, 5], [0, 1, 5, 6]] ()) \<and>
   alpha' (state_ctor \<lparr>def_n = 3, def_v = 7\<rparr> (Fin 0) (Fin (1 / 100)) (Fin (1 / 2))
       [[0, 1, 2, 3], [0, 1, 4, 5], [0, 1, 5, 6]] ()) = Fin 0"
  by (simp add: construct_def model_definition_def MICROSCOPES_DCHECK_def state_ctor_def)

section \<open>The assignment accessors and the scores\<close>

text \<open>
  Claim C9. Whatever the state, \<^verbatim>\<open>table_assignments()\<close> and \<^verbatim>\<open>dish_assignments()\<close> return
  an empty vector when the debug checks are compiled out, and throw when they are compiled
  in: for the three documents of the test neither returns a container of length 3.
\<close>

theorem accessors_return_nothing:
  "table_assignments False s = Inr [] \<and> dish_assignments False s = Inr [] \<and>
   table_assignments True s = Inl (RuntimeError ''table_assignments not implemented'') \<and>
   dish_assignments True s = Inl (RuntimeError ''dish_assignments not implemented'')"
  by (simp add: table_assignments_def dish_assignments_def MICROSCOPES_DCHECK_def)

text \<open>
  Claim C10. For every state, \<^verbatim>\<open>score_assignment()\<close> and \<^verbatim>\<open>score_data(rng)\<close> return
  exactly 0 and leave the state as it was.
\<close>

theorem scores_are_zero:
  "score_assignment s = (Fin 0, s) \<and> score_data s r = (Fin 0, s)"
  by (simp add: score_assignment_def score_data_def)

section \<open>Detaching and attaching again\<close>

lemma fadd_commute: "fadd x y = fadd y x"
  by (cases x; cases y) simp_all

lemma fsub_fadd_cancel [simp]: "fadd (fsub x (Fin a)) (Fin a) = x"
  by (cases x) (simp_all add: fsub_def)

lemma map_of_insort_key:
  "map_of (insort_key fst (k, x) mp) k' = (if k' = k then Some x else map_of mp k')"
  if "map_of mp k = None"
  using that by (induction mp) (auto split: if_splits)

lemma map_of_map_subscript:
  "map_of (map_subscript k z f mp) k' =
     (if k' = k then Some (f (case map_of mp k of None \<Rightarrow> z | Some v \<Rightarrow> v)) else map_of mp k')"
proof (cases "map_of mp k")
  case None
  then show ?thesis by (simp add: map_subscript_def map_of_insort_key)
next
  case (Some v)
  have "map_of (map (\<lambda>(k', v). if k' = k then (k', f v) else (k', v)) mp) k' =
        (if k' = k then map_option f (map_of mp k) else map_of mp k')"
    by (induction mp) auto
  with Some show ?thesis by (simp add: map_subscript_def)
qed

lemma map_read_map_subscript:
  "map_read (map_subscript v 0 f mp) w = (if w = v then f (map_read mp v) else map_read mp w)"
  by (simp add: map_read_def map_of_map_subscript split: option.splits)

lemma defaultdict_get_incr:
  "defaultdict_get (defaultdict_incr d t x) t' =
     (if t' = t then fadd (defaultdict_get d t) x else defaultdict_get d t')"
  by (auto simp: defaultdict_get_def defaultdict_incr_def defaultdict_contains_def
      map_of_map_subscript fadd_commute split: option.splits)

lemma defaultdict_get_decr:
  "defaultdict_get (defaultdict_decr d t x) t' =
     (if t' = t then fsub (defaultdict_get d t) x else defaultdict_get d t')"
  by (auto simp: defaultdict_get_def defaultdict_decr_def defaultdict_contains_def
      map_of_map_subscript split: option.splits)

lemma defaultdict_incr_decr:
  "defaultdict_get (defaultdict_incr (defaultdict_decr d t (Fin a)) t (Fin a)) = defaultdict_get d"
  by (rule ext) (simp add: defaultdict_get_incr defaultdict_get_decr)

lemma map_read_roundtrip:
  "map_read (map_subscript v 0 (\<lambda>c. c + 1) (map_subscript v 0 (\<lambda>c. c - 1) mp)) = map_read mp"
  by (rule ext) (simp add: map_read_map_subscript)

lemma map_update_same [simp]: "(map f ys)[t := f (ys ! t)] = map f ys"
  by (metis list_update_id map_update)

lemma failed_iff: "\<not> failed r \<longleftrightarrow> (\<exists>x. r = Inr x)"
  by (cases r) (simp_all add: failed_def)

text \<open>
  Claim C5, as the code has it. When the word \<open>i\<close> of document \<open>j\<close> sits at a table \<open>t > 0\<close>,
  \<^verbatim>\<open>remove_table(j, i)\<close> returns, and the table does not hold exactly one word (so that the
  detach does not destroy it), then \<^verbatim>\<open>add_table(j, t, i)\<close> run right after returns, and
  \<^verbatim>\<open>n_jt\<close>, \<^verbatim>\<open>n_jtv\<close>, \<^verbatim>\<open>n_k\<close>, \<^verbatim>\<open>n_kv\<close>, \<^verbatim>\<open>m_k\<close>, \<^verbatim>\<open>m\<close>, \<^verbatim>\<open>t_ji\<close> and the active table and
  dish sequences hold what they held before the detach.
\<close>

theorem detach_attach_restores:
  assumes ok: "\<not> failed (remove_table s j i)"
    and t: "0 < t_ji s ! j ! i"
    and two: "n_jt s ! j ! (t_ji s ! j ! i) \<noteq> 1"
  shows "\<exists>s2. detach_attach s j i = Inr s2 \<and> same_counts s2 s"
proof -
  define t where "t = t_ji s ! j ! i"
  define k where "k = k_jt s ! j ! t"
  define v where "v = x_ji s ! j ! i"
  from ok obtain s1 where s1: "remove_table s j i = Inr s1"
    by (auto simp: failed_iff)
  have rng: "j < length (t_ji s)" "i < length (t_ji s ! j)"
    using s1 by (auto simp: remove_table_def rbind_eq_Inr at_index2_eq_Inr)
  from s1 t rng have rest: "j < length (k_jt s)" "t < length (k_jt s ! j)" "0 < k"
      "j < length (x_ji s)" "i < length (x_ji s ! j)" "k < length (n_kv' s)"
      "j < length (n_jt s)" "t < length (n_jt s ! j)"
      "j < length (n_jtv s)" "t < length (n_jtv s ! j)"
    by (auto simp: remove_table_def rbind_eq_Inr at_index2_eq_Inr modify_eq_Inr modify2_eq_Inr
        t_def k_def)
  have nz: "n_jt s ! j ! t - 1 \<noteq> 0"
    using two by (simp add: t_def)
  have s1_eq: "s1 = s\<lparr>n_kv' := (n_kv' s)[k := defaultdict_decr (n_kv' s ! k) v (Fin 1)],
                     n_k := defaultdict_decr (n_k s) k (Fin 1),
                     n_jt := (n_jt s)[j := (n_jt s ! j)[t := n_jt s ! j ! t - 1]],
                     n_jtv := (n_jtv s)[j := (n_jtv s ! j)[t :=
                        map_subscript v 0 (\<lambda>c. c - 1) (n_jtv s ! j ! t)]]\<rparr>"
    using s1 t rng rest nz
    by (simp add: remove_table_def t_def [symmetric] k_def [symmetric] v_def [symmetric])
  let ?s2 = "s1\<lparr>t_ji := (t_ji s1)[j := (t_ji s1 ! j)[i := t]],
               n_jt := (n_jt s1)[j := (n_jt s1 ! j)[t := n_jt s1 ! j ! t + 1]],
               n_k := defaultdict_incr (n_k s1) k (Fin 1),
               n_kv' := (n_kv' s1)[k := defaultdict_incr (n_kv' s1 ! k) v (Fin 1)],
               n_jtv := (n_jtv s1)[j := (n_jtv s1 ! j)[t :=
                  map_subscript v 0 (\<lambda>c. c + 1) (n_jtv s1 ! j ! t)]]\<rparr>"
  have add: "add_table s1 j t i = Inr ?s2"
    using rng rest by (simp add: add_table_def s1_eq k_def v_def)
  have da: "detach_attach s j i = Inr ?s2"
    using rng s1 add by (simp add: detach_attach_def t_def)
  have c1: "n_jt ?s2 = n_jt s"
    using rest by (simp add: s1_eq list_update_same_conv)
  have c2: "map (map map_read) (n_jtv ?s2) = map (map map_read) (n_jtv s)"
    using rest by (simp add: s1_eq map_update map_read_roundtrip list_update_same_conv)
  have c3: "defaultdict_get (n_k ?s2) = defaultdict_get (n_k s)"
    by (simp add: s1_eq defaultdict_incr_decr)
  have c4: "map defaultdict_get (n_kv' ?s2) = map defaultdict_get (n_kv' s)"
    using rest by (simp add: s1_eq map_update defaultdict_incr_decr list_update_same_conv)
  have c5: "t_ji ?s2 = t_ji s"
    using rng by (simp add: s1_eq t_def list_update_same_conv)
  have c6: "m_k ?s2 = m_k s" "m ?s2 = m s" "using_t ?s2 = using_t s" "dishes' ?s2 = dishes' s"
    by (simp_all add: s1_eq)
  from c1 c2 c3 c4 c5 c6 have "same_counts ?s2 s"
    unfolding same_counts_def by blast
  with da show ?thesis by blast
qed

theorem detach_attach_restores_witness:
  "\<exists>s2. detach_attach seated 0 0 = Inr s2 \<and> same_counts s2 seated"
  using detach_attach_restores [of seated 0 0]
  by (simp add: seated_def remove_table_def failed_def defaultdict_decr_def
      defaultdict_contains_def map_subscript_def)

text \<open>
  The second document has a single word, alone at its table. Detaching it destroys the
  table; attaching it again brings back the word counts but not the table: the table is
  missing from the active tables of the document, and \<^verbatim>\<open>m\<close> and \<^verbatim>\<open>m_k[1]\<close> stay one lower.
\<close>

theorem detach_attach_loses_table:
  "detach_attach seated 1 0 =
     Inr (seated\<lparr>using_t := [[0, 1], [0], [0, 1]], m_k := [1, 1, 1], m := 2\<rparr>) \<and>
   using_t seated = [[0, 1], [0, 1], [0, 1]] \<and> m_k seated = [1, 2, 1] \<and> m seated = 3 \<and>
   \<not> same_counts (seated\<lparr>using_t := [[0, 1], [0], [0, 1]], m_k := [1, 1, 1], m := 2\<rparr>) seated"
  by (simp add: detach_attach_def remove_table_def add_table_def delete_table_def
      delete_dish_def removeFirst_def seated_def defaultdict_decr_def defaultdict_incr_def
      defaultdict_contains_def map_subscript_def fsub_def same_counts_def)

section \<open>Fresh ids\<close>

lemma first_mismatch_props:
  "sorted_wrt (<) ds \<Longrightarrow> \<forall>d\<in>set ds. i \<le> d \<Longrightarrow>
     i \<le> first_mismatch i ds \<and> first_mismatch i ds \<le> i + length ds \<and>
     take (first_mismatch i ds - i) ds = [i ..< first_mismatch i ds] \<and>
     (\<forall>d\<in>set (drop (first_mismatch i ds - i) ds). first_mismatch i ds < d)"
proof (induction ds arbitrary: i)
  case Nil
  then show ?case by simp
next
  case (Cons d ds)
  define r where "r = first_mismatch (Suc i) ds"
  show ?case
  proof (cases "i = d")
    case True
    have sorted: "sorted_wrt (<) ds" and above: "\<forall>x\<in>set ds. Suc i \<le> x"
      using Cons.prems True by auto
    from Cons.IH [OF sorted above]
    have ih: "Suc i \<le> r" "r \<le> Suc i + length ds" "take (r - Suc i) ds = [Suc i ..< r]"
      "\<forall>x\<in>set (drop (r - Suc i) ds). r < x"
      by (simp_all add: r_def)
    have fm: "first_mismatch i (d # ds) = r"
      using True by (simp add: r_def)
    have diff: "r - i = Suc (r - Suc i)"
      using ih(1) by simp
    have "take (r - i) (d # ds) = d # take (r - Suc i) ds"
      by (simp only: diff take_Suc_Cons)
    also have "\<dots> = i # [Suc i ..< r]"
      using ih(3) True by simp
    also have "\<dots> = [i ..< r]"
      using ih(1) by (simp add: upt_conv_Cons)
    finally have "take (r - i) (d # ds) = [i ..< r]" .
    moreover have "\<forall>x\<in>set (drop (r - i) (d # ds)). r < x"
      using ih(4) by (simp add: diff)
    ultimately show ?thesis
      using ih(1) ih(2) unfolding fm by simp
  next
    case False
    then have "i < d" using Cons.prems by auto
    moreover have "\<forall>x\<in>set ds. d < x" using Cons.prems by auto
    ultimately show ?thesis using False by auto
  qed
qed

lemma sorted_ids_split:
  assumes "sorted_ids ids"
  defines "r \<equiv> first_mismatch 0 ids"
  shows "0 < r" and "r \<le> length ids" and "take r ids = [0 ..< r]"
    and "\<forall>d\<in>set (drop r ids). r < d"
proof -
  from assms(1) have s: "sorted_wrt (<) ids" and ne: "ids \<noteq> []" and h: "hd ids = 0"
    by (simp_all add: sorted_ids_def)
  from first_mismatch_props [OF s, of 0]
  show "r \<le> length ids" "take r ids = [0 ..< r]" "\<forall>d\<in>set (drop r ids). r < d"
    by (simp_all add: r_def)
  from ne h obtain ds where "ids = 0 # ds" by (cases ids) auto
  then have "r = first_mismatch (Suc 0) ds" by (simp add: r_def)
  moreover have "Suc 0 \<le> first_mismatch (Suc 0) ds"
  proof -
    have "sorted_wrt (<) ds" and "\<forall>d\<in>set ds. Suc 0 \<le> d"
      using s \<open>ids = 0 # ds\<close> by auto
    from first_mismatch_props [OF this] show ?thesis by simp
  qed
  ultimately show "0 < r" by simp
qed

lemma lowest_unused_first_mismatch:
  assumes "sorted_ids ids"
  shows "lowest_unused (first_mismatch 0 ids) ids"
proof -
  let ?r = "first_mismatch 0 ids"
  note sp = sorted_ids_split [OF assms]
  have ids: "ids = [0 ..< ?r] @ drop ?r ids"
    using sp(3) by (metis append_take_drop_id)
  have notin: "?r \<notin> set ids"
  proof
    assume "?r \<in> set ids"
    then have "?r \<in> set [0 ..< ?r] \<or> ?r \<in> set (drop ?r ids)"
      using ids by (metis Un_iff set_append)
    then show False using sp(4) by auto
  qed
  have below: "n \<in> set ids" if "n < ?r" for n
  proof -
    have "n \<in> set [0 ..< ?r]" using that by simp
    then show ?thesis using ids by (metis Un_iff set_append)
  qed
  show ?thesis
    unfolding lowest_unused_def using sp(1) notin below by blast
qed

lemma sorted_ids_insert_at:
  assumes "sorted_ids ids"
  shows "sorted_ids (insert_at (first_mismatch 0 ids) (first_mismatch 0 ids) ids)"
proof -
  let ?r = "first_mismatch 0 ids"
  note sp = sorted_ids_split [OF assms]
  have s: "sorted_wrt (<) ids" using assms by (simp add: sorted_ids_def)
  have sd: "sorted_wrt (<) (drop ?r ids)"
    using s by (simp add: sorted_wrt_drop)
  have eq: "insert_at ?r ?r ids = [0 ..< ?r] @ [?r] @ drop ?r ids"
    by (simp add: insert_at_def sp(3))
  have "sorted_wrt (<) ([0 ..< ?r] @ [?r] @ drop ?r ids)"
    using sd sp(4) by (auto simp: sorted_wrt_append)
  moreover have "hd ([0 ..< ?r] @ [?r] @ drop ?r ids) = 0"
    using sp(1) by (simp add: hd_append upt_conv_Cons)
  ultimately show ?thesis
    by (simp add: sorted_ids_def eq)
qed

lemma set_insert_at: "pos \<le> length v \<Longrightarrow> set (insert_at pos x v) = insert x (set v)"
proof -
  assume "pos \<le> length v"
  have "set (take pos v) \<union> set (drop pos v) = set v"
    by (metis append_take_drop_id set_append)
  then show ?thesis by (auto simp: insert_at_def)
qed

lemma length_insert_at: "length (insert_at pos x v) = Suc (length v)"
  by (simp add: insert_at_def)

lemma sorted_ids_remove1: "sorted_ids ids \<Longrightarrow> 0 < k \<Longrightarrow> sorted_ids (removeFirst ids k)"
proof -
  assume a: "sorted_ids ids" and k: "0 < k"
  then obtain ds where ids: "ids = 0 # ds" by (cases ids) (auto simp: sorted_ids_def)
  have "sorted_wrt (<) (remove1 k ids)"
    using a by (simp add: sorted_ids_def strict_sorted_iff sorted_remove1)
  then show ?thesis using ids k by (simp add: sorted_ids_def removeFirst_def)
qed


lemmas Inr_convs = rbind_eq_Inr at_index_eq_Inr at_index2_eq_Inr modify_eq_Inr modify2_eq_Inr

lemma list_all_update: "list_all P xs \<Longrightarrow> P y \<Longrightarrow> list_all P (xs[j := y])"
  by (induction xs arbitrary: j) (auto split: nat.splits)

lemma list_all_nth: "list_all P xs \<Longrightarrow> j < length xs \<Longrightarrow> P (xs ! j)"
  by (simp add: list_all_length)


lemma rbind_InrE:
  assumes "rbind r f = Inr y"
  obtains x where "r = Inr x" and "f x = Inr y"
  using assms by (auto simp: rbind_eq_Inr)

lemma delete_table_Inr:
  assumes "delete_table s j t = Inr s'"
  shows "j < length (k_jt s) \<and> t < length (k_jt s ! j) \<and>
      j < length (using_t s) \<and> k_jt s ! j ! t < length (m_k s) \<and>
      s' = s\<lparr>using_t := (using_t s)[j := removeFirst (using_t s ! j) t],
             m_k := (m_k s)[k_jt s ! j ! t := m_k s ! (k_jt s ! j ! t) - 1], m := m s - 1,
             dishes' := (if m_k s ! (k_jt s ! j ! t) - 1 = 0
                         then removeFirst (dishes' s) (k_jt s ! j ! t) else dishes' s)\<rparr>"
  using assms unfolding delete_table_def
  apply (elim rbind_InrE)
  apply (simp add: at_index2_eq_Inr modify_eq_Inr delete_dish_def Let_def split: if_splits)
  done



lemma add_table_Inr:
  assumes "add_table s j t i = Inr s'"
  shows "j < length (t_ji s) \<and> i < length (t_ji s ! j) \<and> j < length (n_jt s) \<and>
     t < length (n_jt s ! j) \<and> j < length (k_jt s) \<and> t < length (k_jt s ! j) \<and>
     j < length (x_ji s) \<and> i < length (x_ji s ! j) \<and> k_jt s ! j ! t < length (n_kv' s) \<and>
     j < length (n_jtv s) \<and> t < length (n_jtv s ! j) \<and>
     s' = s\<lparr>t_ji := (t_ji s)[j := (t_ji s ! j)[i := t]],
            n_jt := (n_jt s)[j := (n_jt s ! j)[t := n_jt s ! j ! t + 1]],
            n_k := defaultdict_incr (n_k s) (k_jt s ! j ! t) (Fin 1),
            n_kv' := (n_kv' s)[k_jt s ! j ! t :=
               defaultdict_incr (n_kv' s ! (k_jt s ! j ! t)) (x_ji s ! j ! i) (Fin 1)],
            n_jtv := (n_jtv s)[j := (n_jtv s ! j)[t :=
               map_subscript (x_ji s ! j ! i) 0 (\<lambda>c. c + 1) (n_jtv s ! j ! t)]]\<rparr>"
  using assms unfolding add_table_def
  apply (elim rbind_InrE)
  apply (simp add: Inr_convs)
  done

lemma create_dish_Inr:
  assumes "create_dish s = Inr (k, s')"
  shows "k = first_mismatch 0 (dishes' s) \<and>
     dishes' s' = insert_at k k (dishes' s) \<and>
     using_t s' = using_t s \<and> x_ji s' = x_ji s \<and> n_jt s' = n_jt s \<and> k_jt s' = k_jt s \<and>
     n_jtv s' = n_jtv s \<and> t_ji s' = t_ji s \<and> m s' = m s \<and> rng' s' = rng' s \<and>
     length (m_k s') = (if k = length (dishes' s) then Suc (length (m_k s)) else length (m_k s)) \<and>
     length (n_kv' s') = (if k = length (dishes' s) then Suc (length (n_kv' s)) else length (n_kv' s)) \<and>
     k < length (m_k s') \<and> k < length (n_kv' s')"
  using assms unfolding create_dish_def Let_def
  apply (elim rbind_InrE)
  apply (clarsimp simp: Inr_convs split: if_splits)
  done


lemma map_length_update2 [simp]:
  "map length (xss[j := (xss ! j)[t := v]]) = map length xss"
  by (simp add: map_update list_update_same_conv)

lemma remove_table_frame:
  assumes "remove_table s j i = Inr s'"
  shows "x_ji s' = x_ji s \<and> t_ji s' = t_ji s \<and> k_jt s' = k_jt s \<and> rng' s' = rng' s \<and>
     map length (n_jt s') = map length (n_jt s) \<and>
     map length (n_jtv s') = map length (n_jtv s) \<and>
     length (m_k s') = length (m_k s) \<and> length (n_kv' s') = length (n_kv' s) \<and>
     (using_t s' = using_t s \<or>
      (\<exists>t. 0 < t \<and> j < length (using_t s) \<and>
         using_t s' = (using_t s)[j := removeFirst (using_t s ! j) t])) \<and>
     (dishes' s' = dishes' s \<or> (\<exists>k. 0 < k \<and> dishes' s' = removeFirst (dishes' s) k))"
  using assms unfolding remove_table_def Let_def
  apply (elim rbind_InrE)
  apply (simp add: Inr_convs split: if_splits)
    apply (elim conjE)
    apply (drule delete_table_Inr)
    apply (clarsimp simp: map_update list_update_same_conv)
    apply blast
   apply (clarsimp simp: map_update list_update_same_conv)
  done



lemma add_table_frame:
  assumes "add_table s j t i = Inr s'"
  shows "x_ji s' = x_ji s \<and> k_jt s' = k_jt s \<and> rng' s' = rng' s \<and>
     using_t s' = using_t s \<and> dishes' s' = dishes' s \<and> m_k s' = m_k s \<and> m s' = m s \<and>
     map length (n_jt s') = map length (n_jt s) \<and>
     map length (n_jtv s') = map length (n_jtv s) \<and>
     length (n_kv' s') = length (n_kv' s)"
  using add_table_Inr [OF assms]
  by (elim conjE) (simp add: map_update list_update_same_conv)

lemma create_table_Inr:
  assumes "create_table s j k = Inr (t, s')"
  shows "j < length (using_t s) \<and> t = first_mismatch 0 (using_t s ! j) \<and>
     using_t s' = (using_t s)[j := insert_at t t (using_t s ! j)] \<and>
     dishes' s' = dishes' s \<and> x_ji s' = x_ji s \<and> t_ji s' = t_ji s \<and> n_kv' s' = n_kv' s \<and>
     n_k s' = n_k s \<and> rng' s' = rng' s \<and> m s' = m s + 1 \<and>
     k \<noteq> 0 \<and> k < length (m_k s) \<and> m_k s' = (m_k s)[k := m_k s ! k + 1] \<and>
     j < length (n_jt s) \<and> j < length (k_jt s) \<and>
     length (n_jt s') = length (n_jt s) \<and> length (k_jt s') = length (k_jt s) \<and>
     length (n_jtv s') = length (n_jtv s) \<and>
     (\<forall>j'. j' \<noteq> j \<longrightarrow> n_jt s' ! j' = n_jt s ! j' \<and> k_jt s' ! j' = k_jt s ! j' \<and>
         n_jtv s' ! j' = n_jtv s ! j') \<and>
     t < length (n_jt s' ! j) \<and> t < length (k_jt s' ! j) \<and>
     (if t = length (using_t s ! j)
      then length (n_jt s' ! j) = Suc (length (n_jt s ! j)) \<and>
           length (k_jt s' ! j) = Suc (length (k_jt s ! j)) \<and>
           j < length (n_jtv s) \<and> length (n_jtv s' ! j) = Suc (length (n_jtv s ! j))
      else length (n_jt s' ! j) = length (n_jt s ! j) \<and>
           length (k_jt s' ! j) = length (k_jt s ! j) \<and>
           n_jtv s' = n_jtv s)"
  using assms unfolding create_table_def Let_def
  apply (elim rbind_InrE)
  apply (clarsimp simp: Inr_convs split: if_splits)
  done

lemma leave_from_dish_Inr:
  assumes "leave_from_dish s j t = Inr s'"
  shows "j < length (k_jt s) \<and> t < length (k_jt s ! j) \<and> 0 < k_jt s ! j ! t \<and>
     k_jt s ! j ! t < length (m_k s) \<and> m_k s ! (k_jt s ! j ! t) \<noteq> 0 \<and>
     s' = (if m_k s ! (k_jt s ! j ! t) = 1
           then s\<lparr>m_k := (m_k s)[k_jt s ! j ! t := 0], m := m s - 1,
                  dishes' := removeFirst (dishes' s) (k_jt s ! j ! t),
                  k_jt := (k_jt s)[j := (k_jt s ! j)[t := 0]]\<rparr>
           else s\<lparr>m_k := (m_k s)[k_jt s ! j ! t := m_k s ! (k_jt s ! j ! t) - 1],
                  m := m s - 1\<rparr>)"
  using assms unfolding leave_from_dish_def Let_def
  apply (elim rbind_InrE)
  apply (simp add: Inr_convs delete_dish_def word_gt_0 split: if_splits)
  done

lemma leave_from_dish_frame:
  assumes "leave_from_dish s j t = Inr s'"
  shows "x_ji s' = x_ji s \<and> t_ji s' = t_ji s \<and> rng' s' = rng' s \<and>
     using_t s' = using_t s \<and> n_jt s' = n_jt s \<and> n_jtv s' = n_jtv s \<and>
     n_kv' s' = n_kv' s \<and> n_k s' = n_k s \<and>
     map length (k_jt s') = map length (k_jt s) \<and>
     length (m_k s') = length (m_k s) \<and>
     (dishes' s' = dishes' s \<or> (\<exists>k. 0 < k \<and> dishes' s' = removeFirst (dishes' s) k))"
proof (cases "m_k s ! (k_jt s ! j ! t) = 1")
  case True
  with leave_from_dish_Inr [OF assms] have
    "s' = s\<lparr>m_k := (m_k s)[k_jt s ! j ! t := 0], m := m s - 1,
              dishes' := removeFirst (dishes' s) (k_jt s ! j ! t),
              k_jt := (k_jt s)[j := (k_jt s ! j)[t := 0]]\<rparr>"
    and "0 < k_jt s ! j ! t"
    by simp_all
  then show ?thesis by auto
next
  case False
  with leave_from_dish_Inr [OF assms] have
    "s' = s\<lparr>m_k := (m_k s)[k_jt s ! j ! t := m_k s ! (k_jt s ! j ! t) - 1], m := m s - 1\<rparr>"
    by simp
  then show ?thesis by simp
qed

lemma seat_loop_length:
  "seat_loop k_old k_new mp n_kv0 = Inr n_kv1 \<Longrightarrow> length n_kv1 = length n_kv0"
proof (induction mp arbitrary: n_kv0)
  case Nil
  then show ?case by simp
next
  case (Cons kv mp)
  obtain v n where kv: "kv = (v, n)" by (cases kv)
  from Cons.prems obtain a b where
    a: "(if k_old \<noteq> 0 then modify n_kv0 k_old (\<lambda>d. defaultdict_decr d v (of_size n))
         else Inr n_kv0) = Inr a"
    and b: "modify a k_new (\<lambda>d. defaultdict_incr d v (of_size n)) = Inr b"
    and rest: "seat_loop k_old k_new mp b = Inr n_kv1"
    unfolding kv by (simp split: sum.splits)
  have "length a = length n_kv0"
    using a by (auto simp: modify_eq_Inr split: if_splits)
  moreover have "length b = length a"
    using b by (auto simp: modify_eq_Inr)
  moreover have "length n_kv1 = length b"
    using Cons.IH [OF rest] .
  ultimately show ?case by simp
qed

lemma seat_at_dish_frame:
  assumes "seat_at_dish s j t k = Inr s'"
  shows "x_ji s' = x_ji s \<and> t_ji s' = t_ji s \<and> rng' s' = rng' s \<and>
     using_t s' = using_t s \<and> dishes' s' = dishes' s \<and> n_jt s' = n_jt s \<and>
     n_jtv s' = n_jtv s \<and>
     map length (k_jt s') = map length (k_jt s) \<and>
     length (m_k s') = length (m_k s) \<and> length (n_kv' s') = length (n_kv' s)"
  using assms unfolding seat_at_dish_def Let_def
  apply (elim rbind_InrE)
  apply (clarsimp simp: Inr_convs split: if_splits)
   apply (erule seat_loop_length)+
  done



lemma map_length_eqD:
  assumes "map length xss = map length yss"
  shows "length xss = length yss" and "j < length yss \<Longrightarrow> length (xss ! j) = length (yss ! j)"
proof -
  show len: "length xss = length yss"
    using assms by (rule map_eq_imp_length_eq)
  show "length (xss ! j) = length (yss ! j)" if "j < length yss"
  proof -
    have "map length xss ! j = map length yss ! j" using assms by simp
    then show ?thesis using that len by simp
  qed
qed

lemma list_all_removeFirst: "list_all P xs \<Longrightarrow> list_all P (removeFirst xs x)"
  by (auto simp: list_all_iff removeFirst_def dest: notin_set_remove1)

lemma shape_ok_shrink:
  assumes ok: "shape_ok s"
    and x: "x_ji s' = x_ji s"
    and njt: "map length (n_jt s') = map length (n_jt s)"
    and kjt: "map length (k_jt s') = map length (k_jt s)"
    and njtv: "map length (n_jtv s') = map length (n_jtv s)"
    and mk: "length (m_k s') = length (m_k s)"
    and nkv: "length (n_kv' s') = length (n_kv' s)"
    and u: "using_t s' = using_t s \<or>
       (\<exists>t j. 0 < t \<and> j < length (using_t s) \<and>
          using_t s' = (using_t s)[j := removeFirst (using_t s ! j) t])"
    and d: "dishes' s' = dishes' s \<or> (\<exists>k. 0 < k \<and> dishes' s' = removeFirst (dishes' s) k)"
  shows "shape_ok s'"
proof -
  from ok have ids: "sorted_ids (dishes' s)" "list_all sorted_ids (using_t s)"
    and dish: "length (n_kv' s) = length (m_k s)" "list_all (\<lambda>k. k < length (m_k s)) (dishes' s)"
    and doc: "length (using_t s) = length (x_ji s)" "length (n_jt s) = length (x_ji s)"
      "map length (k_jt s) = map length (n_jt s)" "map length (n_jtv s) = map length (n_jt s)"
      "\<forall>j<length (x_ji s). list_all (\<lambda>t. t < length (n_jt s ! j)) (using_t s ! j)"
    by (simp_all add: shape_ok_def ids_sorted_def dish_shape_def doc_shape_def)
  have d1: "sorted_ids (dishes' s')"
    using d ids(1) by (auto intro: sorted_ids_remove1)
  have d2: "list_all (\<lambda>k. k < length (m_k s')) (dishes' s')"
    using d dish(2) mk by (auto intro: list_all_removeFirst)
  have u1: "list_all sorted_ids (using_t s')"
    using u ids(2) by (auto intro!: list_all_update sorted_ids_remove1 dest: list_all_nth)
  have u2: "length (using_t s') = length (x_ji s')"
    using u doc(1) x by auto
  have len: "length (n_jt s') = length (x_ji s')"
    using map_length_eqD(1) [OF njt] doc(2) x by simp
  have inner: "list_all (\<lambda>t. t < length (n_jt s' ! j)) (using_t s' ! j)"
    if j: "j < length (x_ji s')" for j
  proof -
    have j': "j < length (n_jt s)" "j < length (x_ji s)" "j < length (using_t s)"
      using j x doc by simp_all
    have eq: "length (n_jt s' ! j) = length (n_jt s ! j)"
      using map_length_eqD(2) [OF njt j'(1)] .
    have old: "list_all (\<lambda>t. t < length (n_jt s ! j)) (using_t s ! j)"
      using doc(5) j'(2) by simp
    have "using_t s' ! j = using_t s ! j \<or>
        (\<exists>t. using_t s' ! j = removeFirst (using_t s ! j) t)"
    proof -
      from u consider "using_t s' = using_t s"
        | t j0 where "j0 < length (using_t s)"
            "using_t s' = (using_t s)[j0 := removeFirst (using_t s ! j0) t]"
        by blast
      then show ?thesis
      proof cases
        case 1
        then show ?thesis by simp
      next
        case 2
        then show ?thesis by (cases "j0 = j") auto
      qed
    qed
    then show ?thesis
      using old eq by (auto intro: list_all_removeFirst)
  qed
  have "ids_sorted s'" using d1 u1 by (simp add: ids_sorted_def)
  moreover have "dish_shape s'" using d2 dish(1) mk nkv by (simp add: dish_shape_def)
  moreover have "doc_shape s'"
    using u2 len kjt njt njtv doc(3) doc(4) inner by (simp add: doc_shape_def)
  ultimately show ?thesis by (simp add: shape_ok_def)
qed

lemma shape_ok_init: "shape_ok (state_ctor def alpha beta gamma docs rng)"
  by (simp add: shape_ok_def ids_sorted_def dish_shape_def doc_shape_def state_ctor_def
      sorted_ids_def list_all_iff comp_def)

lemma remove_table_shape: "remove_table s j i = Inr s' \<Longrightarrow> shape_ok s \<Longrightarrow> shape_ok s'"
  by (frule remove_table_frame, erule shape_ok_shrink) auto

lemma add_table_shape: "add_table s j t i = Inr s' \<Longrightarrow> shape_ok s \<Longrightarrow> shape_ok s'"
  by (frule add_table_frame, erule shape_ok_shrink) auto

lemma leave_from_dish_shape: "leave_from_dish s j t = Inr s' \<Longrightarrow> shape_ok s \<Longrightarrow> shape_ok s'"
  by (frule leave_from_dish_frame, erule shape_ok_shrink) auto

lemma seat_at_dish_shape: "seat_at_dish s j t k = Inr s' \<Longrightarrow> shape_ok s \<Longrightarrow> shape_ok s'"
  by (frule seat_at_dish_frame, erule shape_ok_shrink) auto

lemma draw_shape: "shape_ok s \<Longrightarrow> shape_ok (s\<lparr>rng' := r\<rparr>)"
  by (erule shape_ok_shrink) auto


lemma doc_shape_alt:
  "doc_shape s \<longleftrightarrow>
     length (using_t s) = length (x_ji s) \<and> length (n_jt s) = length (x_ji s) \<and>
     length (k_jt s) = length (x_ji s) \<and> length (n_jtv s) = length (x_ji s) \<and>
     (\<forall>j<length (x_ji s). length (k_jt s ! j) = length (n_jt s ! j) \<and>
        length (n_jtv s ! j) = length (n_jt s ! j) \<and>
        list_all (\<lambda>t. t < length (n_jt s ! j)) (using_t s ! j))"
  unfolding doc_shape_def list_eq_iff_nth_eq [of "map length (k_jt s)"]
    list_eq_iff_nth_eq [of "map length (n_jtv s)"]
  by auto

lemma create_dish_shape:
  assumes c: "create_dish s = Inr (k, s')" and ok: "shape_ok s"
  shows "shape_ok s'"
proof -
  note f = create_dish_Inr [OF c]
  from ok have ids: "sorted_ids (dishes' s)" "list_all sorted_ids (using_t s)"
    and dish: "length (n_kv' s) = length (m_k s)" "list_all (\<lambda>k. k < length (m_k s)) (dishes' s)"
    and doc: "doc_shape s"
    by (simp_all add: shape_ok_def ids_sorted_def dish_shape_def)
  have k: "k = first_mismatch 0 (dishes' s)" using f by simp
  have kle: "k \<le> length (dishes' s)"
    using sorted_ids_split(2) [OF ids(1)] k by simp
  have "sorted_ids (dishes' s')"
    using f sorted_ids_insert_at [OF ids(1)] k by simp
  then have i: "ids_sorted s'"
    using f ids(2) by (simp add: ids_sorted_def)
  have len: "length (m_k s) \<le> length (m_k s')"
    using f by (simp split: if_splits)
  have "set (dishes' s') = insert k (set (dishes' s))"
    using f set_insert_at [OF kle] by simp
  then have "list_all (\<lambda>k. k < length (m_k s')) (dishes' s')"
    using dish(2) len f by (auto simp: list_all_iff)
  moreover have "length (n_kv' s') = length (m_k s')"
    using f dish(1) by (simp split: if_splits)
  ultimately have d: "dish_shape s'"
    by (simp add: dish_shape_def)
  have "doc_shape s'"
    using doc f by (simp add: doc_shape_def)
  with i d show ?thesis by (simp add: shape_ok_def)
qed

lemma create_table_shape:
  assumes c: "create_table s j k = Inr (t, s')" and ok: "shape_ok s"
  shows "shape_ok s'"
proof -
  note f = create_table_Inr [OF c]
  from ok have ids: "sorted_ids (dishes' s)" "list_all sorted_ids (using_t s)"
    and dish: "length (n_kv' s) = length (m_k s)" "list_all (\<lambda>k. k < length (m_k s)) (dishes' s)"
    and doc: "length (using_t s) = length (x_ji s)" "length (n_jt s) = length (x_ji s)"
      "length (k_jt s) = length (x_ji s)" "length (n_jtv s) = length (x_ji s)"
      "\<And>j. j < length (x_ji s) \<Longrightarrow> length (k_jt s ! j) = length (n_jt s ! j)"
      "\<And>j. j < length (x_ji s) \<Longrightarrow> length (n_jtv s ! j) = length (n_jt s ! j)"
      "\<And>j. j < length (x_ji s) \<Longrightarrow> list_all (\<lambda>t. t < length (n_jt s ! j)) (using_t s ! j)"
    by (simp_all add: shape_ok_def ids_sorted_def dish_shape_def doc_shape_alt)
  have j: "j < length (using_t s)" and t: "t = first_mismatch 0 (using_t s ! j)"
    and u: "using_t s' = (using_t s)[j := insert_at t t (using_t s ! j)]"
    using f by simp_all
  have sj: "sorted_ids (using_t s ! j)"
    using ids(2) j by (rule list_all_nth)
  have tle: "t \<le> length (using_t s ! j)"
    using sorted_ids_split(2) [OF sj] t by simp
  have "list_all sorted_ids (using_t s')"
    unfolding u using ids(2) sorted_ids_insert_at [OF sj] t by (auto intro: list_all_update)
  then have i: "ids_sorted s'"
    using f ids(1) by (simp add: ids_sorted_def)
  have d: "dish_shape s'"
    using f dish by (simp add: dish_shape_def)
  have inner: "length (k_jt s' ! j') = length (n_jt s' ! j') \<and>
        length (n_jtv s' ! j') = length (n_jt s' ! j') \<and>
        list_all (\<lambda>t. t < length (n_jt s' ! j')) (using_t s' ! j')"
    if j': "j' < length (x_ji s)" for j'
  proof (cases "j' = j")
    case False
    then have "using_t s' ! j' = using_t s ! j'" using u by simp
    then show ?thesis using f False doc(5-7) [OF j'] by simp
  next
    case True
    have uj: "using_t s' ! j = insert_at t t (using_t s ! j)"
      using u j by simp
    have set: "set (using_t s' ! j) = insert t (set (using_t s ! j))"
      using uj set_insert_at [OF tle] by simp
    have old: "\<forall>x\<in>set (using_t s ! j). x < length (n_jt s ! j)"
      using doc(7) [OF j'] True by (simp add: list_all_iff)
    have grow: "length (n_jt s ! j) \<le> length (n_jt s' ! j)"
      using f by (simp split: if_splits)
    have tlt: "t < length (n_jt s' ! j)" using f by simp
    have "list_all (\<lambda>t. t < length (n_jt s' ! j)) (using_t s' ! j)"
      unfolding list_all_iff set using old grow tlt by auto
    moreover have "length (k_jt s' ! j) = length (n_jt s' ! j)"
      using f doc(5) [OF j'] True by (simp split: if_splits)
    moreover have "length (n_jtv s' ! j) = length (n_jt s' ! j)"
      using f doc(6) [OF j'] True by (simp split: if_splits)
    ultimately show ?thesis using True by simp
  qed
  have "doc_shape s'"
    unfolding doc_shape_alt using f u doc(1-4) inner by simp
  with i d show ?thesis by (simp add: shape_ok_def)
qed

lemma reachable_shape: "reachable s \<Longrightarrow> shape_ok s"
proof (induction rule: reachable.induct)
  case (init def alpha beta gamma docs rng)
  show ?case by (rule shape_ok_init)
next
  case (detach s j i s')
  then show ?case by (auto intro: remove_table_shape)
next
  case (attach s j t i s')
  then show ?case by (auto intro: add_table_shape)
next
  case (new_dish s k s')
  then show ?case by (auto intro: create_dish_shape)
next
  case (new_table s j k t s')
  then show ?case by (auto intro: create_table_shape)
next
  case (leave s j t s')
  then show ?case by (auto intro: leave_from_dish_shape)
next
  case (seat s j t k s')
  then show ?case by (auto intro: seat_at_dish_shape)
next
  case (draw s r)
  then show ?case by (auto intro: draw_shape)
qed

lemma sorted_ids_bound:
  assumes s: "sorted_ids ids" and b: "list_all (\<lambda>k. k < n) ids"
  shows "first_mismatch 0 ids \<le> n"
    and "first_mismatch 0 ids < length ids \<Longrightarrow> first_mismatch 0 ids < n"
    and "first_mismatch 0 ids = length ids \<Longrightarrow> last ids = first_mismatch 0 ids - 1"
proof -
  let ?r = "first_mismatch 0 ids"
  note sp = sorted_ids_split [OF s]
  have pred: "?r - 1 \<in> set ids"
  proof -
    have "?r - 1 \<in> set [0 ..< ?r]" using sp(1) by simp
    then have "?r - 1 \<in> set (take ?r ids)" using sp(3) by simp
    then show ?thesis by (rule in_set_takeD)
  qed
  then have "?r - 1 < n" using b by (simp add: list_all_iff)
  then show "?r \<le> n" by simp
  show "?r < n" if lt: "?r < length ids"
  proof -
    have "ids ! ?r \<in> set (drop ?r ids)"
      using lt by (metis Cons_nth_drop_Suc list.set_intros(1))
    then have "?r < ids ! ?r" using sp(4) by simp
    moreover have "ids ! ?r < n" using b lt by (simp add: list_all_length)
    ultimately show ?thesis by simp
  qed
  show "last ids = ?r - 1" if eq: "?r = length ids"
  proof -
    have "ids = [0 ..< ?r]" using sp(3) eq by simp
    then have "last ids = last [0 ..< ?r]" by simp
    also have "\<dots> = ?r - 1" using sp(1) by (simp add: last_upt)
    finally show ?thesis .
  qed
qed

lemma create_dish_succeeds:
  assumes s: "sorted_ids (dishes' s)" and d: "dish_shape s"
  shows "\<exists>s'. create_dish s = Inr (first_mismatch 0 (dishes' s), s')"
proof -
  let ?r = "first_mismatch 0 (dishes' s)"
  from d have len: "length (n_kv' s) = length (m_k s)"
    and b: "list_all (\<lambda>k. k < length (m_k s)) (dishes' s)"
    by (simp_all add: dish_shape_def)
  note sp = sorted_ids_split [OF s]
  note bd = sorted_ids_bound [OF s b]
  have ne: "dishes' s \<noteq> []" using s by (simp add: sorted_ids_def)
  have m0: "0 < length (m_k s)" using bd(1) sp(1) by linarith
  show ?thesis
  proof (cases "?r = length (dishes' s)")
    case True
    have "?r = last (dishes' s) + 1" using bd(3) [OF True] sp(1) by simp
    then show ?thesis
      using True ne m0 bd(1) len by (simp add: create_dish_def Let_def)
  next
    case False
    then have "?r < length (dishes' s)" using sp(2) by simp
    then have "?r < length (m_k s)" by (rule bd(2))
    then show ?thesis
      using False len by (simp add: create_dish_def Let_def)
  qed
qed

lemma create_table_succeeds:
  assumes doc: "doc_shape s" and j: "j < length (x_ji s)"
    and s: "sorted_ids (using_t s ! j)" and k: "k \<noteq> 0" "k < length (m_k s)"
  shows "\<exists>s'. create_table s j k = Inr (first_mismatch 0 (using_t s ! j), s')"
proof -
  let ?u = "using_t s ! j"
  let ?r = "first_mismatch 0 ?u"
  from doc j have l: "j < length (using_t s)" "j < length (n_jt s)" "j < length (k_jt s)"
      "j < length (n_jtv s)" "length (k_jt s ! j) = length (n_jt s ! j)"
      "length (n_jtv s ! j) = length (n_jt s ! j)"
    and b: "list_all (\<lambda>t. t < length (n_jt s ! j)) ?u"
    by (simp_all add: doc_shape_alt)
  note sp = sorted_ids_split [OF s]
  note bd = sorted_ids_bound [OF s b]
  show ?thesis
  proof (cases "?r = length ?u")
    case True
    then show ?thesis
      using l k bd(1) by (simp add: create_table_def Let_def)
  next
    case False
    then have "?r < length ?u" using sp(2) by simp
    then have "?r < length (n_jt s ! j)" by (rule bd(2))
    then show ?thesis
      using False l k by (simp add: create_table_def Let_def)
  qed
qed

text \<open>
  Claim C3. In a reachable state, for a document \<open>j\<close>, the two calls of the branch
  "new table, new dish" of \<^verbatim>\<open>sampling_t\<close>, \<^verbatim>\<open>k_new = create_dish()\<close> and then
  \<^verbatim>\<open>create_table(j, k_new)\<close>, both return; the dish id is the lowest positive integer that
  is not in the active dishes, the table id is the lowest positive integer that is not in
  the active tables of the document, and each of the two sequences gains exactly that one
  id.
\<close>

theorem fresh_ids_are_lowest:
  assumes r: "reachable s" and j: "j < length (x_ji s)"
  shows "\<exists>k s1 t s2.
     create_dish s = Inr (k, s1) \<and> create_table s1 j k = Inr (t, s2) \<and>
     lowest_unused k (dishes' s) \<and> lowest_unused t (using_t s ! j) \<and>
     dishes' s2 = insert_at k k (dishes' s) \<and>
     set (dishes' s2) = insert k (set (dishes' s)) \<and>
     length (dishes' s2) = Suc (length (dishes' s)) \<and>
     using_t s2 = (using_t s)[j := insert_at t t (using_t s ! j)] \<and>
     set (using_t s2 ! j) = insert t (set (using_t s ! j)) \<and>
     length (using_t s2 ! j) = Suc (length (using_t s ! j))"
proof -
  let ?k = "first_mismatch 0 (dishes' s)"
  let ?t = "first_mismatch 0 (using_t s ! j)"
  have ok: "shape_ok s" using r by (rule reachable_shape)
  then have ids: "sorted_ids (dishes' s)" "list_all sorted_ids (using_t s)"
    and dish: "dish_shape s" and doc: "doc_shape s"
    by (simp_all add: shape_ok_def ids_sorted_def)
  have ju: "j < length (using_t s)" using doc j by (simp add: doc_shape_def)
  have sj: "sorted_ids (using_t s ! j)" using ids(2) ju by (rule list_all_nth)
  from create_dish_succeeds [OF ids(1) dish]
  obtain s1 where c1: "create_dish s = Inr (?k, s1)" by blast
  note f1 = create_dish_Inr [OF c1]
  have ok1: "shape_ok s1" using c1 ok by (rule create_dish_shape)
  then have doc1: "doc_shape s1" by (simp add: shape_ok_def)
  have kpos: "?k \<noteq> 0" using sorted_ids_split(1) [OF ids(1)] by simp
  have "\<exists>s2. create_table s1 j ?k = Inr (first_mismatch 0 (using_t s1 ! j), s2)"
    using doc1 j sj kpos f1 by (intro create_table_succeeds) simp_all
  then obtain s2 where c2: "create_table s1 j ?k = Inr (?t, s2)"
    using f1 by auto
  note f2 = create_table_Inr [OF c2]
  have d2: "dishes' s2 = insert_at ?k ?k (dishes' s)" using f1 f2 by simp
  have u2: "using_t s2 = (using_t s)[j := insert_at ?t ?t (using_t s ! j)]"
    using f1 f2 by simp
  have uj: "using_t s2 ! j = insert_at ?t ?t (using_t s ! j)"
    using u2 ju by simp
  have "set (dishes' s2) = insert ?k (set (dishes' s))"
    unfolding d2 using sorted_ids_split(2) [OF ids(1)] by (rule set_insert_at)
  moreover have "set (using_t s2 ! j) = insert ?t (set (using_t s ! j))"
    unfolding uj using sorted_ids_split(2) [OF sj] by (rule set_insert_at)
  moreover have "length (dishes' s2) = Suc (length (dishes' s))"
    unfolding d2 by (rule length_insert_at)
  moreover have "length (using_t s2 ! j) = Suc (length (using_t s ! j))"
    unfolding uj by (rule length_insert_at)
  moreover note lowest_unused_first_mismatch [OF ids(1)] lowest_unused_first_mismatch [OF sj]
  ultimately show ?thesis
    using c1 c2 d2 u2 by blast
qed

theorem fresh_ids_are_lowest_witness:
  "\<exists>k s1 t s2.
     create_dish scenario_a = Inr (k, s1) \<and> create_table s1 0 k = Inr (t, s2) \<and>
     lowest_unused k (dishes' scenario_a) \<and> lowest_unused t (using_t scenario_a ! 0) \<and>
     dishes' s2 = insert_at k k (dishes' scenario_a) \<and>
     set (dishes' s2) = insert k (set (dishes' scenario_a)) \<and>
     length (dishes' s2) = Suc (length (dishes' scenario_a)) \<and>
     using_t s2 = (using_t scenario_a)[0 := insert_at t t (using_t scenario_a ! 0)] \<and>
     set (using_t s2 ! 0) = insert t (set (using_t scenario_a ! 0)) \<and>
     length (using_t s2 ! 0) = Suc (length (using_t scenario_a ! 0))"
proof -
  have r: "reachable scenario_a"
    unfolding scenario_a_def by (rule reachable.init)
  have j: "0 < length (x_ji scenario_a)"
    by (simp add: scenario_a_def state_ctor_def)
  show ?thesis using fresh_ids_are_lowest [OF r j] .
qed

section \<open>The order of a sweep\<close>

lemma run_each_append:
  "run_each f (xs @ ys) s = rbind (run_each f xs s) (run_each f ys)"
  by (induction xs arbitrary: s) (auto split: sum.splits)

lemma run_each_map: "run_each f (map g xs) s = run_each (\<lambda>x. f (g x)) xs s"
  by (induction xs arbitrary: s) (auto split: sum.splits)

lemma run_each_filter:
  "run_each (\<lambda>x a. if P x then f x a else Inr a) xs s = run_each f (filter P xs) s"
  by (induction xs arbitrary: s) (auto split: sum.splits)

lemma run_each_preserves:
  assumes "\<And>x a b. Q a \<Longrightarrow> f x a = Inr b \<Longrightarrow> Q b"
    and "Q s" and "run_each f xs s = Inr s'"
  shows "Q s'"
  using assms(2,3)
proof (induction xs arbitrary: s)
  case Nil
  then show ?case by simp
next
  case (Cons x xs)
  from Cons.prems(2) obtain a where a: "f x s = Inr a" and rest: "run_each f xs a = Inr s'"
    by (auto split: sum.splits)
  from assms(1) [OF Cons.prems(1) a] have "Q a" .
  then show ?case using rest by (rule Cons.IH)
qed

lemma nested_loop_flat:
  fixes step :: "nat \<Rightarrow> 'b \<Rightarrow> 's \<Rightarrow> error + 's" and X :: "'s \<Rightarrow> 'c list"
  assumes inv: "\<And>j y a b. step j y a = Inr b \<Longrightarrow> X b = X a"
    and rng: "\<forall>j\<in>set js. j < length (X s)"
  shows "run_each (\<lambda>j a. rbind (at_index (X a) j) (\<lambda>row. run_each (step j) (h row) a)) js s =
     run_each (\<lambda>(j, y). step j y) (concat (map (\<lambda>j. map (Pair j) (h (X s ! j))) js)) s"
  using rng
proof (induction js arbitrary: s)
  case Nil
  then show ?case by simp
next
  case (Cons j js)
  let ?F = "\<lambda>(j, y). step j y"
  have j: "j < length (X s)" using Cons.prems by simp
  have inner: "run_each ?F (map (Pair j) (h (X s ! j))) s = run_each (step j) (h (X s ! j)) s"
    by (simp add: run_each_map)
  show ?case
  proof (cases "run_each (step j) (h (X s ! j)) s")
    case (Inl e)
    then show ?thesis using j inner by (simp add: run_each_append)
  next
    case (Inr s')
    have X: "X s' = X s"
      using run_each_preserves [where Q = "\<lambda>a. X a = X s" and f = "step j", OF _ _ Inr]
      by (simp add: inv)
    have "\<forall>j\<in>set js. j < length (X s')" using Cons.prems X by simp
    from Cons.IH [OF this] show ?thesis
      using j inner Inr X by (simp add: run_each_append)
  qed
qed


lemma sampling_t_preserves:
  assumes rem: "\<And>a j i b. Q a \<Longrightarrow> remove_table a j i = Inr b \<Longrightarrow> Q b"
    and add: "\<And>a j t i b. Q a \<Longrightarrow> add_table a j t i = Inr b \<Longrightarrow> Q b"
    and dish: "\<And>a k b. Q a \<Longrightarrow> create_dish a = Inr (k, b) \<Longrightarrow> Q b"
    and tab: "\<And>a j k t b. Q a \<Longrightarrow> create_table a j k = Inr (t, b) \<Longrightarrow> Q b"
    and draw: "\<And>a r. Q a \<Longrightarrow> Q (a\<lparr>rng' := r\<rparr>)"
    and s: "Q s" and run: "sampling_t E s j i = Inr s'"
  shows "Q s'"
  using run s unfolding sampling_t_def
  apply (elim rbind_InrE)
  apply (simp only: Let_def split: prod.splits)
  apply (elim rbind_InrE)
  apply (simp only: split: if_splits prod.splits)
   apply (elim rbind_InrE)
   apply (simp only: split: if_splits prod.splits)
   apply (elim rbind_InrE)
   apply (simp only: split: if_splits prod.splits)
    apply (erule add [rotated], erule tab [rotated], erule dish [rotated], (rule draw)+,
      erule rem [rotated], assumption)
   apply clarsimp
   apply (erule add [rotated], erule tab [rotated], (rule draw)+, erule rem [rotated], assumption)
  apply clarsimp
  apply (erule add [rotated], (rule draw)+, erule rem [rotated], assumption)
  done

lemma sampling_k_preserves:
  assumes leave: "\<And>a j t b. Q a \<Longrightarrow> leave_from_dish a j t = Inr b \<Longrightarrow> Q b"
    and seat: "\<And>a j t k b. Q a \<Longrightarrow> seat_at_dish a j t k = Inr b \<Longrightarrow> Q b"
    and dish: "\<And>a k b. Q a \<Longrightarrow> create_dish a = Inr (k, b) \<Longrightarrow> Q b"
    and draw: "\<And>a r. Q a \<Longrightarrow> Q (a\<lparr>rng' := r\<rparr>)"
    and s: "Q s" and run: "sampling_k E s j t = Inr s'"
  shows "Q s'"
  using run s unfolding sampling_k_def
  apply (elim rbind_InrE)
  apply (simp only: Let_def split: prod.splits)
  apply (elim rbind_InrE)
  apply (simp only: split: if_splits prod.splits)
   apply (erule seat [rotated], erule dish [rotated], (rule draw)+, erule leave [rotated],
      assumption)
  apply clarsimp
  apply (erule seat [rotated], (rule draw)+, erule leave [rotated], assumption)
  done

lemma sampling_t_reachable:
  "reachable s \<Longrightarrow> sampling_t E s j i = Inr s' \<Longrightarrow> reachable s'"
  by (rule sampling_t_preserves [where Q = reachable and s = s])
    (auto intro: reachable.intros)

lemma sampling_k_reachable:
  "reachable s \<Longrightarrow> sampling_k E s j t = Inr s' \<Longrightarrow> reachable s'"
  by (rule sampling_k_preserves [where Q = reachable and s = s])
    (auto intro: reachable.intros)

lemma sampling_t_x_ji: "sampling_t E s j i = Inr s' \<Longrightarrow> x_ji s' = x_ji s"
  by (rule sampling_t_preserves [where Q = "\<lambda>a. x_ji a = x_ji s" and s = s])
    (auto dest: remove_table_frame add_table_frame create_dish_Inr create_table_Inr)

lemma sampling_k_using_t: "sampling_k E s j t = Inr s' \<Longrightarrow> using_t s' = using_t s"
  by (rule sampling_k_preserves [where Q = "\<lambda>a. using_t a = using_t s" and s = s])
    (auto dest: leave_from_dish_frame seat_at_dish_frame create_dish_Inr)

lemma word_phase_flat:
  "word_phase E s = run_each (\<lambda>(j, i) a. sampling_t E a j i) (word_positions s) s"
  unfolding word_phase_def word_positions_def
  by (rule nested_loop_flat [where X = x_ji and step = "\<lambda>j i a. sampling_t E a j i"
        and h = "\<lambda>doc. [0 ..< length doc]"])
    (auto dest: sampling_t_x_ji)

lemma word_phase_reachable:
  assumes "reachable s" and "word_phase E s = Inr s'"
  shows "reachable s'"
proof (rule run_each_preserves [where Q = reachable])
  show "reachable s" by fact
  show "run_each (\<lambda>(j, i) a. sampling_t E a j i) (word_positions s) s = Inr s'"
    using assms(2) by (simp add: word_phase_flat)
  show "reachable b" if "reachable a" and "(case x of (j, i) \<Rightarrow> \<lambda>a. sampling_t E a j i) a = Inr b"
    for x a b
    using that by (cases x) (auto intro: sampling_t_reachable)
qed

lemma table_phase_flat:
  assumes "length (using_t s) = length (x_ji s)"
  shows "table_phase E s = run_each (\<lambda>(j, t) a. sampling_k E a j t) (table_positions s) s"
proof -
  let ?step = "\<lambda>j t a. if t \<noteq> 0 then sampling_k E a j t else Inr a"
  have "table_phase E s =
      run_each (\<lambda>(j, t). ?step j t)
        (concat (map (\<lambda>j. map (Pair j) (using_t s ! j)) [0 ..< length (x_ji s)])) s"
    unfolding table_phase_def
    by (rule nested_loop_flat [where X = using_t and step = ?step and h = "\<lambda>row. row"])
      (use assms in \<open>auto dest: sampling_k_using_t split: if_splits\<close>)
  also have "(\<lambda>(j, t). ?step j t) =
      (\<lambda>x a. if (case x of (j, t) \<Rightarrow> t \<noteq> 0) then (case x of (j, t) \<Rightarrow> \<lambda>a. sampling_k E a j t) a
              else Inr a)"
    by (auto simp: fun_eq_iff)
  finally show ?thesis
    by (simp only: run_each_filter table_positions_def)
qed

lemma table_phase_reachable:
  assumes "reachable s" and "table_phase E s = Inr s'"
  shows "reachable s'"
proof (rule run_each_preserves [where Q = reachable])
  show "reachable s" by fact
  have "length (using_t s) = length (x_ji s)"
    using reachable_shape [OF assms(1)] by (simp add: shape_ok_def doc_shape_def)
  then show "run_each (\<lambda>(j, t) a. sampling_k E a j t) (table_positions s) s = Inr s'"
    using assms(2) by (simp add: table_phase_flat)
  show "reachable b" if "reachable a" and "(case x of (j, t) \<Rightarrow> \<lambda>a. sampling_k E a j t) a = Inr b"
    for x a b
    using that by (cases x) (auto intro: sampling_k_reachable)
qed

text \<open>A sweep leads from a reachable state to a reachable state.\<close>

lemma inference_reachable:
  assumes "reachable s" and "inference E s = Inr s'"
  shows "reachable s'"
proof -
  from assms(2) obtain s1 where w: "word_phase E s = Inr s1" and t: "table_phase E s1 = Inr s'"
    unfolding inference_def by (elim rbind_InrE)
  from assms(1) w have "reachable s1" by (rule word_phase_reachable)
  then show ?thesis using t by (rule table_phase_reachable)
qed

section \<open>Validation of the probability vectors\<close>

lemma valid_probability_loop_iff:
  "valid_probability_loop acc p \<longleftrightarrow>
     list_all isfinite p \<and> list_all (\<lambda>x. \<not> flt x (Fin 0)) p \<and>
     flt (fabs (fsub (Fin 1) (foldl fadd acc p))) (Fin (1 / 100))"
  by (induction p arbitrary: acc) auto

lemma foldl_fadd_Fin: "foldl fadd (Fin a) (map Fin rs) = Fin (a + sum_list rs)"
  by (induction rs arbitrary: a) (simp_all add: add.assoc)

lemma fsum_Fin: "fsum (map Fin rs) = Fin (sum_list rs)"
  by (simp add: fsum_def foldl_fadd_Fin)

lemma valid_probability_vector_iff:
  "valid_probability_vector p \<longleftrightarrow>
     list_all isfinite p \<and> list_all (\<lambda>x. \<not> flt x (Fin 0)) p \<and>
     flt (fabs (fsub (Fin 1) (fsum p))) (Fin (1 / 100))"
  by (simp add: valid_probability_vector_def valid_probability_loop_iff fsum_def)

lemma valid_probability_vector_Fin:
  "valid_probability_vector (map Fin rs) \<longleftrightarrow>
     list_all (\<lambda>r. 0 \<le> r) rs \<and> \<bar>1 - sum_list rs\<bar> < 1 / 100"
  by (simp add: valid_probability_vector_iff fsum_Fin fsub_def list_all_iff not_less)

lemma validate_eq_Inr [simp]:
  "validate_probability_vector p = Inr u \<longleftrightarrow> valid_probability_vector p"
  by (simp add: validate_probability_vector_def)

lemma sampling_t_validates:
  assumes "sampling_t E s j i = Inr s'"
  shows "\<exists>s1 v f_k p_t. remove_table s j i = Inr s1 \<and> at_index2 (x_ji s1) j i = Inr v \<and>
     calc_f_k s1 v = Inr f_k \<and> calc_table_posterior s1 j f_k = Inr p_t \<and>
     valid_probability_vector p_t \<and>
     (using_t s1 ! j ! fst (sample_discrete E p_t (rng' s1)) = 0 \<longrightarrow>
        (\<exists>p_k. calc_dish_posterior_w (s1\<lparr>rng' := snd (sample_discrete E p_t (rng' s1))\<rparr>) f_k
                = Inr p_k \<and> valid_probability_vector p_k))"
  using assms unfolding sampling_t_def
  apply (elim rbind_InrE)
  apply (simp only: Let_def split: prod.splits)
  apply (elim rbind_InrE)
  apply (simp only: split: if_splits prod.splits)
   apply (elim rbind_InrE)
   apply (simp add: at_index2_eq_Inr)
  apply (simp add: at_index2_eq_Inr)
  done

lemma sampling_k_validates:
  assumes "sampling_k E s j t = Inr s'"
  shows "\<exists>s1 p_k. leave_from_dish s j t = Inr s1 \<and> calc_dish_posterior_t E s1 j t = Inr p_k \<and>
     valid_probability_vector p_k"
  using assms unfolding sampling_k_def
  apply (elim rbind_InrE)
  apply simp
  done

lemmas eval_defs = sampling_t_def sampling_k_def remove_table_def add_table_def create_dish_def
  create_table_def leave_from_dish_def seat_at_dish_def delete_table_def delete_dish_def
  calc_f_k_def calc_table_posterior_def calc_dish_posterior_w_def calc_dish_posterior_t_def
  dish_log_prior_def word_term_def max_element_def normalize_def vec_div_def fsum_def fdot_def
  fsub_def of_size_def of_index_def validate_probability_vector_def valid_probability_vector_def
  defaultdict_get_def defaultdict_set_def defaultdict_incr_def defaultdict_decr_def
  defaultdict_contains_def defaultdict_new_def map_subscript_def insert_at_def removeFirst_def
  first_index_sampler_def Let_def

lemma sampling_t_scenario_a: "\<exists>s'. sampling_t first_index_sampler scenario_a 0 0 = Inr s'"
  by (simp add: eval_defs scenario_a_def state_ctor_def)

lemma sampling_k_seated: "\<exists>s'. sampling_k first_index_sampler seated 0 1 = Inr s'"
  by (simp add: eval_defs seated_def)

text \<open>
  Claim C2. \<^verbatim>\<open>valid_probability_vector\<close> accepts a vector exactly when every entry is
  finite, no entry is negative, and the accumulated sum \<open>\<Sigma>\<close> satisfies \<open>|1 - \<Sigma>| < 0.01\<close>; for
  finite entries \<open>rs\<close> that is: all are at least 0 and \<open>|1 - sum rs| < 1/100\<close>. A vector that
  is not accepted makes the validation fail. When \<^verbatim>\<open>sampling_t\<close> returns, the table
  posterior it computed was accepted, and so was the dish posterior of
  \<^verbatim>\<open>calc_dish_posterior_w\<close> if the draw selected the sentinel table; when \<^verbatim>\<open>sampling_k\<close>
  returns, the vector of \<^verbatim>\<open>calc_dish_posterior_t\<close> was accepted.
\<close>

theorem probability_vectors_are_validated:
  "(valid_probability_vector p \<longleftrightarrow>
      list_all isfinite p \<and> list_all (\<lambda>x. \<not> flt x (Fin 0)) p \<and>
      flt (fabs (fsub (Fin 1) (fsum p))) (Fin (1 / 100))) \<and>
   (valid_probability_vector (map Fin rs) \<longleftrightarrow>
      list_all (\<lambda>r. 0 \<le> r) rs \<and> \<bar>1 - sum_list rs\<bar> < 1 / 100) \<and>
   (\<not> valid_probability_vector q \<longrightarrow> validate_probability_vector q = Inl InvariantViolation) \<and>
   (sampling_t E s j i = Inr s' \<longrightarrow>
      (\<exists>s1 v f_k p_t. remove_table s j i = Inr s1 \<and> at_index2 (x_ji s1) j i = Inr v \<and>
         calc_f_k s1 v = Inr f_k \<and> calc_table_posterior s1 j f_k = Inr p_t \<and>
         valid_probability_vector p_t \<and>
         (using_t s1 ! j ! fst (sample_discrete E p_t (rng' s1)) = 0 \<longrightarrow>
            (\<exists>p_k. calc_dish_posterior_w
                      (s1\<lparr>rng' := snd (sample_discrete E p_t (rng' s1))\<rparr>) f_k = Inr p_k \<and>
                   valid_probability_vector p_k)))) \<and>
   (sampling_k E a d t = Inr a' \<longrightarrow>
      (\<exists>a1 p_k. leave_from_dish a d t = Inr a1 \<and> calc_dish_posterior_t E a1 d t = Inr p_k \<and>
         valid_probability_vector p_k))"
  using valid_probability_vector_iff [of p] valid_probability_vector_Fin [of rs]
    sampling_t_validates [of E s j i s'] sampling_k_validates [of E a d t a']
  by (simp add: validate_probability_vector_def)

theorem probability_vectors_are_validated_witness:
  "valid_probability_vector [Fin (1 / 4), Fin (3 / 4)] \<and>
   validate_probability_vector [Fin (1 / 2), NaN] = Inl InvariantViolation \<and>
   (\<exists>s1 v f_k p_t. remove_table scenario_a 0 0 = Inr s1 \<and>
      at_index2 (x_ji s1) 0 0 = Inr v \<and> calc_f_k s1 v = Inr f_k \<and>
      calc_table_posterior s1 0 f_k = Inr p_t \<and> valid_probability_vector p_t \<and>
      (\<exists>p_k. calc_dish_posterior_w
                (s1\<lparr>rng' := snd (sample_discrete first_index_sampler p_t (rng' s1))\<rparr>) f_k
              = Inr p_k \<and> valid_probability_vector p_k)) \<and>
   (\<exists>a1 p_k. leave_from_dish seated 0 1 = Inr a1 \<and>
      calc_dish_posterior_t first_index_sampler a1 0 1 = Inr p_k \<and>
      valid_probability_vector p_k)"
proof -
  obtain s' where t_run: "sampling_t first_index_sampler scenario_a 0 0 = Inr s'"
    using sampling_t_scenario_a by blast
  obtain a' where k_run: "sampling_k first_index_sampler seated 0 1 = Inr a'"
    using sampling_k_seated by blast
  have bad: "\<not> valid_probability_vector [Fin (1 / 2), NaN]"
    by (simp add: valid_probability_vector_def)
  note inst = probability_vectors_are_validated [of "[Fin (1 / 4), Fin (3 / 4)]" "[1 / 4, 3 / 4]"
      "[Fin (1 / 2), NaN]" first_index_sampler scenario_a 0 0 s' seated 0 1 a']
  have good: "valid_probability_vector [Fin (1 / 4), Fin (3 / 4)]"
    using inst by (simp add: fsum_def fsub_def)
  have fatal: "validate_probability_vector [Fin (1 / 2), NaN] = Inl InvariantViolation"
    using inst [THEN conjunct2, THEN conjunct2, THEN conjunct1, THEN mp, OF bad] .
  note i4 = inst [THEN conjunct2, THEN conjunct2, THEN conjunct2, THEN conjunct1, THEN mp,
      OF t_run]
  note i5 = inst [THEN conjunct2, THEN conjunct2, THEN conjunct2, THEN conjunct2, THEN mp,
      OF k_run]
  from i4 obtain s1 v f_k p_t where t:
    "remove_table scenario_a 0 0 = Inr s1" "at_index2 (x_ji s1) 0 0 = Inr v"
    "calc_f_k s1 v = Inr f_k" "calc_table_posterior s1 0 f_k = Inr p_t"
    "valid_probability_vector p_t"
    "using_t s1 ! 0 ! fst (sample_discrete first_index_sampler p_t (rng' s1)) = 0 \<longrightarrow>
       (\<exists>p_k. calc_dish_posterior_w
                 (s1\<lparr>rng' := snd (sample_discrete first_index_sampler p_t (rng' s1))\<rparr>) f_k
               = Inr p_k \<and> valid_probability_vector p_k)"
    by (elim exE conjE) (rule that)
  have s1: "s1 = scenario_a"
    using t(1) by (simp add: remove_table_def scenario_a_def state_ctor_def)
  have "using_t s1 ! 0 ! fst (sample_discrete first_index_sampler p_t (rng' s1)) = 0"
    by (simp add: s1 first_index_sampler_def scenario_a_def state_ctor_def)
  with t(6) have new: "\<exists>p_k. calc_dish_posterior_w
       (s1\<lparr>rng' := snd (sample_discrete first_index_sampler p_t (rng' s1))\<rparr>) f_k = Inr p_k \<and>
       valid_probability_vector p_k"
    by blast
  note k = i5
  show ?thesis
    using good fatal t(1-5) new k by blast
qed

section \<open>The table posterior\<close>

lemma for_each_Inr: "(\<And>x. x \<in> set xs \<Longrightarrow> f x = Inr (g x)) \<Longrightarrow> for_each f xs = Inr (map g xs)"
  by (induction xs) simp_all

lemma fdot_Fin:
  "fdot (map Fin fr) (map of_size cs) =
     Fin (sum_list (map (\<lambda>(f, c). f * real (unat c)) (zip fr cs)))"
proof -
  have "map (\<lambda>(x, y). fmul x y) (zip (map Fin fr) (map of_size cs)) =
      map Fin (map (\<lambda>(f, c). f * real (unat c)) (zip fr cs))"
    by (induction fr cs rule: list_induct2') (simp_all add: of_size_def)
  then show ?thesis unfolding fdot_def by (simp only: fsum_Fin)
qed

lemma fadd_Fin_of_size: "fadd (Fin g) (of_size c) = Fin (g + real (unat c))"
  by (simp add: of_size_def)

lemma fmul_of_size_Fin: "fmul (of_size c) (Fin f) = Fin (real (unat c) * f)"
  by (simp add: of_size_def)

lemma fdiv_Fin_of_index: "n \<noteq> 0 \<Longrightarrow> fdiv (Fin g) (of_index n) = Fin (g / real n)"
  by (simp add: of_index_def)

lemma vec_div_Fin: "c \<noteq> 0 \<Longrightarrow> vec_div (map Fin ws) (Fin c) = map (\<lambda>w. Fin (w / c)) ws"
  by (simp add: vec_div_def)

lemma sum_list_divide: "sum_list (map (\<lambda>w. w / c) ws) = sum_list ws / (c::real)"
  by (induction ws) (simp_all add: add_divide_distrib)

text \<open>
  \<^verbatim>\<open>calc_table_posterior\<close> for finite hyperparameters and ratios, whenever the three
  divisions are by a number that is not 0: the weights, each divided by their sum.
\<close>

lemma calc_table_posterior_general:
  assumes j: "j < length (using_t s)" "j < length (n_jt s)" "j < length (k_jt s)"
    and sentinel: "using_t s ! j = 0 # ts"
    and in_range: "list_all (\<lambda>t. t < length (n_jt s ! j) \<and> t < length (k_jt s ! j) \<and>
                      k_jt s ! j ! t < length fr) (using_t s ! j)"
    and len: "length fr = length (m_k s)"
    and finite: "alpha' s = Fin a" "gamma' s = Fin g"
    and nonzero: "V s \<noteq> 0" "g + real (unat (m s)) \<noteq> 0" "sum_list (table_weights a g s j fr) \<noteq> 0"
  shows "calc_table_posterior s j (map Fin fr) =
       Inr (map (\<lambda>w. Fin (w / sum_list (table_weights a g s j fr))) (table_weights a g s j fr)) \<and>
     sum_list (map (\<lambda>w. w / sum_list (table_weights a g s j fr)) (table_weights a g s j fr)) = 1"
proof -
  let ?w = "\<lambda>t. real (unat (n_jt s ! j ! t)) * fr ! (k_jt s ! j ! t)"
  let ?dot = "sum_list (map (\<lambda>(f, c). f * real (unat c)) (zip fr (m_k s)))"
  let ?p0 = "a * (g / real (V s) + ?dot) / (g + real (unat (m s)))"
  let ?ws = "table_weights a g s j fr"
  have ws: "?ws = ?p0 # map ?w ts"
    by (simp add: table_weights_def sentinel)
  have each: "rbind (at_index2 (n_jt s) j t) (\<lambda>c.
        rbind (at_index2 (k_jt s) j t) (\<lambda>k.
        rbind (at_index (map Fin fr) k) (\<lambda>f. Inr (fmul (of_size c) f)))) = Inr (Fin (?w t))"
    if "t \<in> set (using_t s ! j)" for t
  proof -
    from in_range that have "t < length (n_jt s ! j)" "t < length (k_jt s ! j)"
      "k_jt s ! j ! t < length fr"
      by (simp_all add: list_all_iff)
    then show ?thesis using j by (simp add: fmul_of_size_Fin)
  qed
  have "for_each (\<lambda>p.
        rbind (at_index2 (n_jt s) j p) (\<lambda>c.
        rbind (at_index2 (k_jt s) j p) (\<lambda>k.
        rbind (at_index (map Fin fr) k) (\<lambda>f. Inr (fmul (of_size c) f))))) (using_t s ! j) =
      Inr (map (\<lambda>t. Fin (?w t)) (using_t s ! j))"
    by (rule for_each_Inr) (rule each)
  then have loop: "for_each (\<lambda>p.
        rbind (at_index2 (n_jt s) j p) (\<lambda>c.
        rbind (at_index2 (k_jt s) j p) (\<lambda>k.
        rbind (at_index (map Fin fr) k) (\<lambda>f. Inr (fmul (of_size c) f))))) (using_t s ! j) =
      Inr (Fin (?w 0) # map Fin (map ?w ts))"
    by (simp add: sentinel)
  have run: "calc_table_posterior s j (map Fin fr) =
      Inr (vec_div (map Fin ?ws) (fsum (map Fin ?ws)))"
    using j len nonzero(1,2)
    by (simp add: calc_table_posterior_def loop finite fdot_Fin fadd_Fin_of_size
        fdiv_Fin_of_index ws mult.commute)
  have "vec_div (map Fin ?ws) (fsum (map Fin ?ws)) = map (\<lambda>w. Fin (w / sum_list ?ws)) ?ws"
    using nonzero(3) by (simp add: fsum_Fin vec_div_Fin)
  moreover have "sum_list (map (\<lambda>w. w / sum_list ?ws) ?ws) = 1"
    using nonzero(3) by (simp add: sum_list_divide)
  ultimately show ?thesis using run by simp
qed

text \<open>
  The three denominators are not 0 for positive \<open>alpha\<close>, \<open>gamma\<close> and \<open>V\<close> and ratios that
  are not negative: the "new table" weight is then positive and no weight is negative.
\<close>

lemma table_weights_sum_pos:
  assumes pos: "0 < a" "0 < g" "0 < V s"
    and ratios: "list_all (\<lambda>f. 0 \<le> f) fr"
    and in_range: "list_all (\<lambda>t. k_jt s ! j ! t < length fr) (tl (using_t s ! j))"
  shows "0 < g + real (unat (m s))" and "0 < sum_list (table_weights a g s j fr)"
proof -
  let ?dot = "sum_list (map (\<lambda>(f, c). f * real (unat c)) (zip fr (m_k s)))"
  have nn: "0 \<le> real (unat w)" for w :: size_t
    by (rule of_nat_0_le_iff)
  from pos(2) nn show den: "0 < g + real (unat (m s))"
    by (rule add_pos_nonneg)
  have "0 \<le> f * real (unat c)" if "(f, c) \<in> set (zip fr (m_k s))" for f c
  proof -
    have "f \<in> set fr" using that by (rule set_zip_leftD)
    then have "0 \<le> f" using ratios by (simp add: list_all_iff)
    then show ?thesis using nn by (rule mult_nonneg_nonneg)
  qed
  then have dot: "0 \<le> ?dot"
    by (intro sum_list_nonneg) auto
  have "0 < g / real (V s)" using pos(2,3) by simp
  then have "0 < g / real (V s) + ?dot" using dot by (rule add_pos_nonneg)
  then have head: "0 < a * (g / real (V s) + ?dot) / (g + real (unat (m s)))"
    using pos(1) den by simp
  have "0 \<le> real (unat (n_jt s ! j ! t)) * fr ! (k_jt s ! j ! t)"
    if "t \<in> set (tl (using_t s ! j))" for t
  proof -
    have "k_jt s ! j ! t < length fr" using in_range that by (simp add: list_all_iff)
    then have "0 \<le> fr ! (k_jt s ! j ! t)" using ratios by (simp add: list_all_length)
    with nn show ?thesis by (rule mult_nonneg_nonneg)
  qed
  then have "0 \<le> sum_list (map (\<lambda>t. real (unat (n_jt s ! j ! t)) * fr ! (k_jt s ! j ! t))
      (tl (using_t s ! j)))"
    by (intro sum_list_nonneg) auto
  with head show "0 < sum_list (table_weights a g s j fr)"
    by (simp add: table_weights_def add_pos_nonneg)
qed

text \<open>
  Claim C1. Let \<open>j\<close> be a document whose active tables are the sentinel followed by
  \<open>ts\<close>, with the indices the function reads in range, let the ratios \<open>fr\<close> be finite and
  not negative, one for each entry of \<^verbatim>\<open>m_k\<close>, and let \<open>alpha = a\<close>, \<open>gamma = g\<close> and \<open>V\<close> be
  positive. Then \<^verbatim>\<open>calc_table_posterior(j, f_k)\<close> returns the vector of the weights, the
  "new table" weight \<open>a \<times> (g/V + fr \<bullet> m_k) / (g + m)\<close> first and then
  \<open>n_jt[j][t] \<times> fr[k_jt[j][t]]\<close> for every \<open>t\<close> of \<open>ts\<close>, each divided by the sum of the
  weights; the entries of the vector sum to 1.
\<close>

theorem calc_table_posterior_value:
  assumes "j < length (using_t s)" and "j < length (n_jt s)" and "j < length (k_jt s)"
    and "using_t s ! j = 0 # ts"
    and "list_all (\<lambda>t. t < length (n_jt s ! j) \<and> t < length (k_jt s ! j) \<and>
            k_jt s ! j ! t < length fr) (using_t s ! j)"
    and "length fr = length (m_k s)"
    and "alpha' s = Fin a" and "gamma' s = Fin g"
    and "0 < a" and "0 < g" and "0 < V s" and "list_all (\<lambda>f. 0 \<le> f) fr"
  shows "calc_table_posterior s j (map Fin fr) =
       Inr (map (\<lambda>w. Fin (w / sum_list (table_weights a g s j fr))) (table_weights a g s j fr)) \<and>
     sum_list (map (\<lambda>w. w / sum_list (table_weights a g s j fr)) (table_weights a g s j fr)) = 1"
proof (rule calc_table_posterior_general)
  have "list_all (\<lambda>t. k_jt s ! j ! t < length fr) (tl (using_t s ! j))"
    using assms(4,5) by (simp add: list_all_iff)
  from table_weights_sum_pos [OF assms(9-12) this]
  show "g + real (unat (m s)) \<noteq> 0" and "sum_list (table_weights a g s j fr) \<noteq> 0"
    by simp_all
  show "V s \<noteq> 0" using assms(11) by simp
qed (use assms in simp_all)

text \<open>
  The first document of the example, with the ratios of the word 0: the "new table" weight
  is \<open>1/2\<close> and the weight of table 1 is \<open>5/4\<close>, so the posterior is \<open>[2/7, 5/7]\<close>.
\<close>

theorem calc_table_posterior_value_witness:
  "table_weights 1 1 seated 0 [0, 5 / 8, 1 / 4] = [1 / 2, 5 / 4] \<and>
   calc_table_posterior seated 0 (map Fin [0, 5 / 8, 1 / 4]) = Inr [Fin (2 / 7), Fin (5 / 7)]"
proof -
  have w: "table_weights 1 1 seated 0 [0, 5 / 8, 1 / 4] = [1 / 2, 5 / 4]"
    by (simp add: table_weights_def seated_def)
  have "calc_table_posterior seated 0 (map Fin [0, 5 / 8, 1 / 4]) =
       Inr (map (\<lambda>w. Fin (w / sum_list (table_weights 1 1 seated 0 [0, 5 / 8, 1 / 4])))
              (table_weights 1 1 seated 0 [0, 5 / 8, 1 / 4])) \<and>
     sum_list (map (\<lambda>w. w / sum_list (table_weights 1 1 seated 0 [0, 5 / 8, 1 / 4]))
                 (table_weights 1 1 seated 0 [0, 5 / 8, 1 / 4])) = 1"
    by (rule calc_table_posterior_value [where ts = "[1]"]) (simp_all add: seated_def)
  then show ?thesis by (simp add: w)
qed

section \<open>A sweep is determined by its draws\<close>

text \<open>
  What a call of the sampler returns, with the recording sampler: the steps of
  \<^verbatim>\<open>sampling_k\<close> and \<^verbatim>\<open>sampling_t\<close> when they return.
\<close>

lemma sampling_k_run:
  assumes "sampling_k E s j t = Inr a"
  shows "\<exists>s1 p_k d r1 k s3.
    leave_from_dish s j t = Inr s1 \<and>
    calc_dish_posterior_t E s1 j t = Inr p_k \<and>
    sample_discrete E p_k (rng' s1) = (d, r1) \<and>
    (dishes' s1 ! d = 0 \<longrightarrow> create_dish (s1\<lparr>rng' := r1\<rparr>) = Inr (k, s3)) \<and>
    (dishes' s1 ! d \<noteq> 0 \<longrightarrow> k = dishes' s1 ! d \<and> s3 = s1\<lparr>rng' := r1\<rparr>) \<and>
    seat_at_dish s3 j t k = Inr a"
  using assms unfolding sampling_k_def
  apply (elim rbind_InrE)
  apply (simp only: Let_def split: prod.splits)
  apply (elim rbind_InrE)
  apply (simp only: split: if_splits prod.splits)
   apply (simp add: at_index_eq_Inr)
  apply (simp add: at_index_eq_Inr)
  done

lemma sampling_t_run:
  assumes "sampling_t E s j i = Inr a"
  shows "\<exists>s1 v f_k p_t w r1 t5 s5.
    remove_table s j i = Inr s1 \<and>
    at_index2 (x_ji s1) j i = Inr v \<and>
    calc_f_k s1 v = Inr f_k \<and>
    calc_table_posterior s1 j f_k = Inr p_t \<and>
    sample_discrete E p_t (rng' s1) = (w, r1) \<and>
    (using_t s1 ! j ! w \<noteq> 0 \<longrightarrow> t5 = using_t s1 ! j ! w \<and> s5 = s1\<lparr>rng' := r1\<rparr>) \<and>
    (using_t s1 ! j ! w = 0 \<longrightarrow>
       (\<exists>p_k d r2 k s4. calc_dish_posterior_w (s1\<lparr>rng' := r1\<rparr>) f_k = Inr p_k \<and>
          sample_discrete E p_k r1 = (d, r2) \<and>
          (dishes' s1 ! d = 0 \<longrightarrow> create_dish (s1\<lparr>rng' := r2\<rparr>) = Inr (k, s4)) \<and>
          (dishes' s1 ! d \<noteq> 0 \<longrightarrow> k = dishes' s1 ! d \<and> s4 = s1\<lparr>rng' := r2\<rparr>) \<and>
          create_table s4 j k = Inr (t5, s5))) \<and>
    add_table s5 j t5 i = Inr a"
  using assms unfolding sampling_t_def
  apply (elim rbind_InrE)
  apply (simp only: Let_def split: prod.splits)
  apply (elim rbind_InrE)
  apply (simp only: split: if_splits prod.splits)
   apply (elim rbind_InrE)
   apply (simp only: split: if_splits prod.splits)
   apply (elim rbind_InrE)
   apply (simp only: split: if_splits prod.splits)
    apply (simp add: at_index_eq_Inr at_index2_eq_Inr)
   apply (simp add: at_index_eq_Inr at_index2_eq_Inr)
  apply (simp add: at_index_eq_Inr at_index2_eq_Inr)
  done

text \<open>
  A draw of the recording sampler appends its outcome to the list, so two draws on one
  generator that leave lists agreeing up to there have the same outcome.
\<close>

lemma logged_draw:
  assumes "sample_discrete (logged E) p g = (w, g1)"
  shows "snd g1 = snd g @ [(w, fst g1)]"
  using assms by (auto simp: logged_def split: prod.splits)

lemma logged_draw_same:
  assumes "sample_discrete (logged E1) p1 g = (w1, g1)"
    and "sample_discrete (logged E2) p2 g = (w2, g2)"
    and "snd g1 @ x1 = snd g2 @ x2"
  shows "w1 = w2 \<and> g1 = g2"
proof -
  have 1: "snd g1 = snd g @ [(w1, fst g1)]" using assms(1) by (rule logged_draw)
  have 2: "snd g2 = snd g @ [(w2, fst g2)]" using assms(2) by (rule logged_draw)
  from assms(3) have "w1 = w2 \<and> fst g1 = fst g2" by (simp add: 1 2)
  moreover from this have "snd g1 = snd g2" by (simp add: 1 2)
  ultimately show ?thesis by (simp add: prod_eq_iff)
qed

lemma chosen_dish_rng:
  assumes "c \<longrightarrow> create_dish (s1\<lparr>rng' := g\<rparr>) = Inr (k, s3)"
    and "\<not> c \<longrightarrow> k = k0 \<and> s3 = s1\<lparr>rng' := g\<rparr>"
  shows "rng' s3 = g"
  using assms by (cases c) (auto dest: create_dish_Inr)

lemma chosen_dish_same:
  assumes "c \<longrightarrow> create_dish s = Inr (k, s3)" and "\<not> c \<longrightarrow> k = k0 \<and> s3 = s"
    and "c \<longrightarrow> create_dish s = Inr (k', s3')" and "\<not> c \<longrightarrow> k' = k0 \<and> s3' = s"
  shows "k = k' \<and> s3 = s3'"
  using assms by (cases c) auto

text \<open>
  \<^verbatim>\<open>sampling_k\<close> and \<^verbatim>\<open>sampling_t\<close> with recording samplers: a step that returns extends the
  list of draws, and two steps from one state whose lists of draws agree, whatever follows
  them, end in one state.
\<close>

lemma sampling_k_run_logged:
  assumes "sampling_k (logged E) s j t = Inr a"
  obtains s1 p d g k s3 where
    "leave_from_dish s j t = Inr s1"
    "sample_discrete (logged E) p (rng' s1) = (d, g)"
    "dishes' s1 ! d = 0 \<longrightarrow> create_dish (s1\<lparr>rng' := g\<rparr>) = Inr (k, s3)"
    "dishes' s1 ! d \<noteq> 0 \<longrightarrow> k = dishes' s1 ! d \<and> s3 = s1\<lparr>rng' := g\<rparr>"
    "seat_at_dish s3 j t k = Inr a"
    "rng' a = g"
proof -
  from sampling_k_run [OF assms] obtain s1 p d g k s3 where
    f: "leave_from_dish s j t = Inr s1"
      "calc_dish_posterior_t (logged E) s1 j t = Inr p"
      "sample_discrete (logged E) p (rng' s1) = (d, g)"
      "dishes' s1 ! d = 0 \<longrightarrow> create_dish (s1\<lparr>rng' := g\<rparr>) = Inr (k, s3)"
      "dishes' s1 ! d \<noteq> 0 \<longrightarrow> k = dishes' s1 ! d \<and> s3 = s1\<lparr>rng' := g\<rparr>"
      "seat_at_dish s3 j t k = Inr a"
    by (elim exE conjE) (rule that)
  have "rng' s3 = g" using f(4,5) by (rule chosen_dish_rng)
  moreover have "rng' a = rng' s3" using seat_at_dish_frame [OF f(6)] by simp
  ultimately have "rng' a = g" by simp
  with f(1,3,4,5,6) show thesis by (rule that)
qed

lemma sampling_k_draws:
  assumes "sampling_k (logged E) s j t = Inr a"
  shows "\<exists>e. draws a = draws s @ e"
proof -
  from assms obtain s1 p d g k s3 where
    f: "leave_from_dish s j t = Inr s1" "sample_discrete (logged E) p (rng' s1) = (d, g)"
      "rng' a = g"
    by (rule sampling_k_run_logged)
  have "rng' s1 = rng' s" using leave_from_dish_frame [OF f(1)] by simp
  with logged_draw [OF f(2)] f(3) show ?thesis by (simp add: draws_def)
qed

lemma sampling_k_same:
  assumes r1: "sampling_k (logged E1) s j t = Inr a"
    and r2: "sampling_k (logged E2) s j t = Inr b"
    and eq: "draws a @ xa = draws b @ xb"
  shows "a = b"
proof -
  from r1 obtain s1 p d g k s3 where
    f: "leave_from_dish s j t = Inr s1"
      "sample_discrete (logged E1) p (rng' s1) = (d, g)"
      "dishes' s1 ! d = 0 \<longrightarrow> create_dish (s1\<lparr>rng' := g\<rparr>) = Inr (k, s3)"
      "dishes' s1 ! d \<noteq> 0 \<longrightarrow> k = dishes' s1 ! d \<and> s3 = s1\<lparr>rng' := g\<rparr>"
      "seat_at_dish s3 j t k = Inr a" "rng' a = g"
    by (rule sampling_k_run_logged)
  from r2 obtain s1' p' d' g' k' s3' where
    f': "leave_from_dish s j t = Inr s1'"
      "sample_discrete (logged E2) p' (rng' s1') = (d', g')"
      "dishes' s1' ! d' = 0 \<longrightarrow> create_dish (s1'\<lparr>rng' := g'\<rparr>) = Inr (k', s3')"
      "dishes' s1' ! d' \<noteq> 0 \<longrightarrow> k' = dishes' s1' ! d' \<and> s3' = s1'\<lparr>rng' := g'\<rparr>"
      "seat_at_dish s3' j t k' = Inr b" "rng' b = g'"
    by (rule sampling_k_run_logged)
  have s1: "s1' = s1" using f(1) f'(1) by simp
  have "snd g @ xa = snd g' @ xb" using eq by (simp add: draws_def f(6) f'(6))
  with f(2) f'(2) [unfolded s1] have dg: "d = d' \<and> g = g'" by (rule logged_draw_same)
  have "k = k' \<and> s3 = s3'"
    using f(3,4) f'(3,4) [unfolded s1] unfolding dg [THEN conjunct1] dg [THEN conjunct2]
    by (rule chosen_dish_same)
  then show ?thesis using f(5) f'(5) by simp
qed

lemma new_table_run_logged:
  assumes "\<exists>p_k d r2 k s4. calc_dish_posterior_w (s1\<lparr>rng' := g\<rparr>) f_k = Inr p_k \<and>
          sample_discrete (logged E) p_k g = (d, r2) \<and>
          (dishes' s1 ! d = 0 \<longrightarrow> create_dish (s1\<lparr>rng' := r2\<rparr>) = Inr (k, s4)) \<and>
          (dishes' s1 ! d \<noteq> 0 \<longrightarrow> k = dishes' s1 ! d \<and> s4 = s1\<lparr>rng' := r2\<rparr>) \<and>
          create_table s4 j k = Inr (t5, s5)"
  obtains p_k d r2 k s4 where
    "sample_discrete (logged E) p_k g = (d, r2)"
    "dishes' s1 ! d = 0 \<longrightarrow> create_dish (s1\<lparr>rng' := r2\<rparr>) = Inr (k, s4)"
    "dishes' s1 ! d \<noteq> 0 \<longrightarrow> k = dishes' s1 ! d \<and> s4 = s1\<lparr>rng' := r2\<rparr>"
    "create_table s4 j k = Inr (t5, s5)"
    "rng' s5 = r2"
proof -
  from assms obtain p_k d r2 k s4 where
    f: "calc_dish_posterior_w (s1\<lparr>rng' := g\<rparr>) f_k = Inr p_k"
      "sample_discrete (logged E) p_k g = (d, r2)"
      "dishes' s1 ! d = 0 \<longrightarrow> create_dish (s1\<lparr>rng' := r2\<rparr>) = Inr (k, s4)"
      "dishes' s1 ! d \<noteq> 0 \<longrightarrow> k = dishes' s1 ! d \<and> s4 = s1\<lparr>rng' := r2\<rparr>"
      "create_table s4 j k = Inr (t5, s5)"
    by (elim exE conjE) (rule that)
  have "rng' s4 = r2" using f(3,4) by (rule chosen_dish_rng)
  moreover have "rng' s5 = rng' s4" using create_table_Inr [OF f(5)] by simp
  ultimately have "rng' s5 = r2" by simp
  with f(2,3,4,5) show thesis by (rule that)
qed

lemma sampling_t_run_logged:
  assumes "sampling_t (logged E) s j i = Inr a"
  obtains s1 w g t5 s5 p_t f_k where
    "remove_table s j i = Inr s1"
    "calc_f_k s1 (x_ji s1 ! j ! i) = Inr f_k"
    "calc_table_posterior s1 j f_k = Inr p_t"
    "sample_discrete (logged E) p_t (rng' s1) = (w, g)"
    "using_t s1 ! j ! w \<noteq> 0 \<longrightarrow> t5 = using_t s1 ! j ! w \<and> s5 = s1\<lparr>rng' := g\<rparr>"
    "using_t s1 ! j ! w = 0 \<longrightarrow>
       (\<exists>p_k d r2 k s4. calc_dish_posterior_w (s1\<lparr>rng' := g\<rparr>) f_k = Inr p_k \<and>
          sample_discrete (logged E) p_k g = (d, r2) \<and>
          (dishes' s1 ! d = 0 \<longrightarrow> create_dish (s1\<lparr>rng' := r2\<rparr>) = Inr (k, s4)) \<and>
          (dishes' s1 ! d \<noteq> 0 \<longrightarrow> k = dishes' s1 ! d \<and> s4 = s1\<lparr>rng' := r2\<rparr>) \<and>
          create_table s4 j k = Inr (t5, s5))"
    "add_table s5 j t5 i = Inr a"
    "rng' a = rng' s5"
proof -
  from sampling_t_run [OF assms] obtain s1 v f_k p_t w g t5 s5 where
    f: "remove_table s j i = Inr s1"
      "at_index2 (x_ji s1) j i = Inr v"
      "calc_f_k s1 v = Inr f_k"
      "calc_table_posterior s1 j f_k = Inr p_t"
      "sample_discrete (logged E) p_t (rng' s1) = (w, g)"
      "using_t s1 ! j ! w \<noteq> 0 \<longrightarrow> t5 = using_t s1 ! j ! w \<and> s5 = s1\<lparr>rng' := g\<rparr>"
      "using_t s1 ! j ! w = 0 \<longrightarrow>
       (\<exists>p_k d r2 k s4. calc_dish_posterior_w (s1\<lparr>rng' := g\<rparr>) f_k = Inr p_k \<and>
          sample_discrete (logged E) p_k g = (d, r2) \<and>
          (dishes' s1 ! d = 0 \<longrightarrow> create_dish (s1\<lparr>rng' := r2\<rparr>) = Inr (k, s4)) \<and>
          (dishes' s1 ! d \<noteq> 0 \<longrightarrow> k = dishes' s1 ! d \<and> s4 = s1\<lparr>rng' := r2\<rparr>) \<and>
          create_table s4 j k = Inr (t5, s5))"
      "add_table s5 j t5 i = Inr a"
    by (elim exE conjE) (rule that)
  have v: "v = x_ji s1 ! j ! i" using f(2) by (simp add: at_index2_eq_Inr)
  have "rng' a = rng' s5" using add_table_frame [OF f(8)] by simp
  with f(1) f(3) [unfolded v] f(4-8) show thesis by (rule that)
qed

lemma sampling_t_draws:
  assumes "sampling_t (logged E) s j i = Inr a"
  shows "\<exists>e. draws a = draws s @ e"
proof -
  from assms obtain s1 w g t5 s5 p_t f_k where
    f: "remove_table s j i = Inr s1"
      "sample_discrete (logged E) p_t (rng' s1) = (w, g)"
      "using_t s1 ! j ! w \<noteq> 0 \<longrightarrow> t5 = using_t s1 ! j ! w \<and> s5 = s1\<lparr>rng' := g\<rparr>"
      "using_t s1 ! j ! w = 0 \<longrightarrow>
       (\<exists>p_k d r2 k s4. calc_dish_posterior_w (s1\<lparr>rng' := g\<rparr>) f_k = Inr p_k \<and>
          sample_discrete (logged E) p_k g = (d, r2) \<and>
          (dishes' s1 ! d = 0 \<longrightarrow> create_dish (s1\<lparr>rng' := r2\<rparr>) = Inr (k, s4)) \<and>
          (dishes' s1 ! d \<noteq> 0 \<longrightarrow> k = dishes' s1 ! d \<and> s4 = s1\<lparr>rng' := r2\<rparr>) \<and>
          create_table s4 j k = Inr (t5, s5))"
      "rng' a = rng' s5"
    by (rule sampling_t_run_logged)
  have s1: "rng' s1 = rng' s" using remove_table_frame [OF f(1)] by simp
  have g: "snd g = draws s @ [(w, fst g)]"
    using logged_draw [OF f(2)] by (simp add: draws_def s1)
  show ?thesis
  proof (cases "using_t s1 ! j ! w = 0")
    case False
    with f(3) have "rng' s5 = g" by simp
    then show ?thesis using g f(5) by (simp add: draws_def)
  next
    case True
    with f(4) obtain p_k d r2 where
      "sample_discrete (logged E) p_k g = (d, r2)" and "rng' s5 = r2"
      by (elim impE [OF _ True] new_table_run_logged)
    then show ?thesis using g f(5) logged_draw [of E p_k g d r2] by (simp add: draws_def)
  qed
qed

lemma sampling_t_same:
  assumes r1: "sampling_t (logged E1) s j i = Inr a"
    and r2: "sampling_t (logged E2) s j i = Inr b"
    and eq: "draws a @ xa = draws b @ xb"
  shows "a = b"
proof -
  from r1 obtain s1 w g t5 s5 p_t f_k where
    f: "remove_table s j i = Inr s1"
      "calc_f_k s1 (x_ji s1 ! j ! i) = Inr f_k"
      "calc_table_posterior s1 j f_k = Inr p_t"
      "sample_discrete (logged E1) p_t (rng' s1) = (w, g)"
      "using_t s1 ! j ! w \<noteq> 0 \<longrightarrow> t5 = using_t s1 ! j ! w \<and> s5 = s1\<lparr>rng' := g\<rparr>"
      "using_t s1 ! j ! w = 0 \<longrightarrow>
       (\<exists>p_k d r2 k s4. calc_dish_posterior_w (s1\<lparr>rng' := g\<rparr>) f_k = Inr p_k \<and>
          sample_discrete (logged E1) p_k g = (d, r2) \<and>
          (dishes' s1 ! d = 0 \<longrightarrow> create_dish (s1\<lparr>rng' := r2\<rparr>) = Inr (k, s4)) \<and>
          (dishes' s1 ! d \<noteq> 0 \<longrightarrow> k = dishes' s1 ! d \<and> s4 = s1\<lparr>rng' := r2\<rparr>) \<and>
          create_table s4 j k = Inr (t5, s5))"
      "add_table s5 j t5 i = Inr a"
      "rng' a = rng' s5"
    by (rule sampling_t_run_logged)
  from r2 obtain s1' w' g' t5' s5' p_t' f_k' where
    f': "remove_table s j i = Inr s1'"
      "calc_f_k s1' (x_ji s1' ! j ! i) = Inr f_k'"
      "calc_table_posterior s1' j f_k' = Inr p_t'"
      "sample_discrete (logged E2) p_t' (rng' s1') = (w', g')"
      "using_t s1' ! j ! w' \<noteq> 0 \<longrightarrow> t5' = using_t s1' ! j ! w' \<and> s5' = s1'\<lparr>rng' := g'\<rparr>"
      "using_t s1' ! j ! w' = 0 \<longrightarrow>
       (\<exists>p_k d r2 k s4. calc_dish_posterior_w (s1'\<lparr>rng' := g'\<rparr>) f_k' = Inr p_k \<and>
          sample_discrete (logged E2) p_k g' = (d, r2) \<and>
          (dishes' s1' ! d = 0 \<longrightarrow> create_dish (s1'\<lparr>rng' := r2\<rparr>) = Inr (k, s4)) \<and>
          (dishes' s1' ! d \<noteq> 0 \<longrightarrow> k = dishes' s1' ! d \<and> s4 = s1'\<lparr>rng' := r2\<rparr>) \<and>
          create_table s4 j k = Inr (t5', s5'))"
      "add_table s5' j t5' i = Inr b"
      "rng' b = rng' s5'"
    by (rule sampling_t_run_logged)
  have s1: "s1' = s1" using f(1) f'(1) by simp
  note h = f'(4-6) [unfolded s1]
  have ea: "\<exists>e. snd (rng' s5) = snd g @ e"
  proof (cases "using_t s1 ! j ! w = 0")
    case False
    with f(5) show ?thesis by simp
  next
    case True
    with f(6) obtain p_k d r2 where
      "sample_discrete (logged E1) p_k g = (d, r2)" and "rng' s5 = r2"
      by (elim impE [OF _ True] new_table_run_logged)
    then show ?thesis using logged_draw [of E1 p_k g d r2] by simp
  qed
  have eb: "\<exists>e. snd (rng' s5') = snd g' @ e"
  proof (cases "using_t s1 ! j ! w' = 0")
    case False
    with h(2) show ?thesis by simp
  next
    case True
    with h(3) obtain p_k d r2 where
      "sample_discrete (logged E2) p_k g' = (d, r2)" and "rng' s5' = r2"
      by (elim impE [OF _ True] new_table_run_logged)
    then show ?thesis using logged_draw [of E2 p_k g' d r2] by simp
  qed
  from ea eb obtain e e' where e: "snd (rng' s5) = snd g @ e" "snd (rng' s5') = snd g' @ e'"
    by blast
  from eq have all: "snd (rng' s5) @ xa = snd (rng' s5') @ xb"
    by (simp add: draws_def f(8) f'(8))
  then have "snd g @ (e @ xa) = snd g' @ (e' @ xb)" by (simp add: e)
  with f(4) h(1) have wg: "w = w' \<and> g = g'" by (rule logged_draw_same)
  have fk: "f_k' = f_k" using f(2) f'(2) by (simp add: s1)
  note h2 = h(2,3) [unfolded fk, folded wg [THEN conjunct1] wg [THEN conjunct2]]
  have "t5 = t5' \<and> s5 = s5'"
  proof (cases "using_t s1 ! j ! w = 0")
    case False
    with f(5) h2(1) show ?thesis by simp
  next
    case True
    from f(6) obtain p_k d r2 k s4 where
      n: "sample_discrete (logged E1) p_k g = (d, r2)"
        "dishes' s1 ! d = 0 \<longrightarrow> create_dish (s1\<lparr>rng' := r2\<rparr>) = Inr (k, s4)"
        "dishes' s1 ! d \<noteq> 0 \<longrightarrow> k = dishes' s1 ! d \<and> s4 = s1\<lparr>rng' := r2\<rparr>"
        "create_table s4 j k = Inr (t5, s5)"
        "rng' s5 = r2"
      by (elim impE [OF _ True] new_table_run_logged)
    from h2(2) obtain p_k' d' r2' k' s4' where
      n': "sample_discrete (logged E2) p_k' g = (d', r2')"
        "dishes' s1 ! d' = 0 \<longrightarrow> create_dish (s1\<lparr>rng' := r2'\<rparr>) = Inr (k', s4')"
        "dishes' s1 ! d' \<noteq> 0 \<longrightarrow> k' = dishes' s1 ! d' \<and> s4' = s1\<lparr>rng' := r2'\<rparr>"
        "create_table s4' j k' = Inr (t5', s5')"
        "rng' s5' = r2'"
      by (elim impE [OF _ True] new_table_run_logged)
    from all have "snd r2 @ xa = snd r2' @ xb" by (simp add: n(5) n'(5))
    with n(1) n'(1) have dr: "d = d' \<and> r2 = r2'" by (rule logged_draw_same)
    have "k = k' \<and> s4 = s4'"
      using n(2,3) n'(2,3) unfolding dr [THEN conjunct1] dr [THEN conjunct2]
      by (rule chosen_dish_same)
    then show ?thesis using n(4) n'(4) by simp
  qed
  then show ?thesis using f(7) f'(7) by simp
qed

text \<open>The same for the loops, the two phases and the sweep.\<close>

lemma run_each_draws:
  assumes step: "\<And>x t t'. f x t = Inr t' \<Longrightarrow> \<exists>e. draws t' = draws t @ e"
    and run: "run_each f xs s = Inr a"
  shows "\<exists>e. draws a = draws s @ e"
proof (rule run_each_preserves [where Q = "\<lambda>t. \<exists>e. draws t = draws s @ e", OF _ _ run])
  show "\<exists>e. draws s = draws s @ e" by simp
  show "\<exists>e. draws b = draws s @ e" if "\<exists>e. draws t = draws s @ e" and "f x t = Inr b" for x t b
    using that(1) step [OF that(2)] by auto
qed

lemma run_each_same:
  assumes ext1: "\<And>x t t'. f1 x t = Inr t' \<Longrightarrow> \<exists>e. draws t' = draws t @ e"
    and ext2: "\<And>x t t'. f2 x t = Inr t' \<Longrightarrow> \<exists>e. draws t' = draws t @ e"
    and same: "\<And>x t a b xa xb. f1 x t = Inr a \<Longrightarrow> f2 x t = Inr b \<Longrightarrow>
        draws a @ xa = draws b @ xb \<Longrightarrow> a = b"
    and r1: "run_each f1 xs s = Inr a" and r2: "run_each f2 xs s = Inr b"
    and eq: "draws a @ xa = draws b @ xb"
  shows "a = b"
  using r1 r2
proof (induction xs arbitrary: s)
  case Nil
  then show ?case by simp
next
  case (Cons x xs)
  from Cons.prems(1) obtain a1 where a1: "f1 x s = Inr a1" and ra: "run_each f1 xs a1 = Inr a"
    by (auto split: sum.splits)
  from Cons.prems(2) obtain b1 where b1: "f2 x s = Inr b1" and rb: "run_each f2 xs b1 = Inr b"
    by (auto split: sum.splits)
  have "\<exists>e. draws a = draws a1 @ e" using ext1 ra by (rule run_each_draws)
  then obtain ea where ea: "draws a = draws a1 @ ea" by blast
  have "\<exists>e. draws b = draws b1 @ e" using ext2 rb by (rule run_each_draws)
  then obtain eb where eb: "draws b = draws b1 @ eb" by blast
  from eq have "draws a1 @ (ea @ xa) = draws b1 @ (eb @ xb)" by (simp add: ea eb)
  with a1 b1 have "a1 = b1" by (rule same)
  with ra rb show ?case by (simp add: Cons.IH)
qed

lemma nested_loop_draws:
  assumes step: "\<And>j y t t'. step j y t = Inr t' \<Longrightarrow> \<exists>e. draws t' = draws t @ e"
    and run: "run_each (\<lambda>j a. rbind (at_index (X a) j) (\<lambda>row. run_each (step j) (h row) a))
        js s = Inr a"
  shows "\<exists>e. draws a = draws s @ e"
proof (rule run_each_draws [OF _ run])
  fix j t t'
  assume "rbind (at_index (X t) j) (\<lambda>row. run_each (step j) (h row) t) = Inr t'"
  then obtain row where "run_each (step j) (h row) t = Inr t'" by (rule rbind_InrE)
  with step show "\<exists>e. draws t' = draws t @ e" by (rule run_each_draws)
qed

lemma nested_loop_same:
  assumes ext1: "\<And>j y t t'. step1 j y t = Inr t' \<Longrightarrow> \<exists>e. draws t' = draws t @ e"
    and ext2: "\<And>j y t t'. step2 j y t = Inr t' \<Longrightarrow> \<exists>e. draws t' = draws t @ e"
    and same: "\<And>j y t a b xa xb. step1 j y t = Inr a \<Longrightarrow> step2 j y t = Inr b \<Longrightarrow>
        draws a @ xa = draws b @ xb \<Longrightarrow> a = b"
    and r1: "run_each (\<lambda>j a. rbind (at_index (X a) j) (\<lambda>row. run_each (step1 j) (h row) a))
        js s = Inr a"
    and r2: "run_each (\<lambda>j a. rbind (at_index (X a) j) (\<lambda>row. run_each (step2 j) (h row) a))
        js s = Inr b"
    and eq: "draws a @ xa = draws b @ xb"
  shows "a = b"
proof (rule run_each_same [OF _ _ _ r1 r2 eq])
  fix j t t'
  assume "rbind (at_index (X t) j) (\<lambda>row. run_each (step1 j) (h row) t) = Inr t'"
  then obtain row where "run_each (step1 j) (h row) t = Inr t'" by (rule rbind_InrE)
  with ext1 show "\<exists>e. draws t' = draws t @ e" by (rule run_each_draws)
next
  fix j t t'
  assume "rbind (at_index (X t) j) (\<lambda>row. run_each (step2 j) (h row) t) = Inr t'"
  then obtain row where "run_each (step2 j) (h row) t = Inr t'" by (rule rbind_InrE)
  with ext2 show "\<exists>e. draws t' = draws t @ e" by (rule run_each_draws)
next
  fix j t a' b' ya yb
  assume a: "rbind (at_index (X t) j) (\<lambda>row. run_each (step1 j) (h row) t) = Inr a'"
    and b: "rbind (at_index (X t) j) (\<lambda>row. run_each (step2 j) (h row) t) = Inr b'"
    and e: "draws a' @ ya = draws b' @ yb"
  from a obtain row where row: "at_index (X t) j = Inr row"
    and ra: "run_each (step1 j) (h row) t = Inr a'" by (rule rbind_InrE)
  from b row have rb: "run_each (step2 j) (h row) t = Inr b'" by simp
  from ext1 ext2 same ra rb e show "a' = b'" by (rule run_each_same)
qed

lemma word_phase_draws:
  assumes "word_phase (logged E) s = Inr a"
  shows "\<exists>e. draws a = draws s @ e"
  using assms unfolding word_phase_def
  by (rule nested_loop_draws [rotated]) (rule sampling_t_draws)

lemma table_step_draws:
  assumes "(if t \<noteq> 0 then sampling_k (logged E) s j t else Inr s) = Inr a"
  shows "\<exists>e. draws a = draws s @ e"
  using assms by (cases "t = 0") (auto dest: sampling_k_draws)

lemma table_phase_draws:
  assumes "table_phase (logged E) s = Inr a"
  shows "\<exists>e. draws a = draws s @ e"
  using assms unfolding table_phase_def
  by (rule nested_loop_draws [rotated]) (rule table_step_draws)

lemma word_phase_same:
  assumes "word_phase (logged E1) s = Inr a" and "word_phase (logged E2) s = Inr b"
    and "draws a @ xa = draws b @ xb"
  shows "a = b"
proof (rule nested_loop_same [where X = x_ji and h = "\<lambda>doc. [0 ..< length doc]"
      and ?step1.0 = "\<lambda>j i a. sampling_t (logged E1) a j i"
      and ?step2.0 = "\<lambda>j i a. sampling_t (logged E2) a j i", OF _ _ _ _ _ assms(3)])
  show "run_each (\<lambda>j a. rbind (at_index (x_ji a) j)
      (\<lambda>row. run_each (\<lambda>i a. sampling_t (logged E1) a j i) [0..<length row] a))
      [0 ..< length (x_ji s)] s = Inr a"
    using assms(1) by (simp add: word_phase_def)
  show "run_each (\<lambda>j a. rbind (at_index (x_ji a) j)
      (\<lambda>row. run_each (\<lambda>i a. sampling_t (logged E2) a j i) [0..<length row] a))
      [0 ..< length (x_ji s)] s = Inr b"
    using assms(2) by (simp add: word_phase_def)
qed (auto intro: sampling_t_draws sampling_t_same)

lemma table_phase_same:
  assumes "table_phase (logged E1) s = Inr a" and "table_phase (logged E2) s = Inr b"
    and "draws a @ xa = draws b @ xb"
  shows "a = b"
proof (rule nested_loop_same [where X = using_t and h = "\<lambda>row. row"
      and ?step1.0 = "\<lambda>j t a. if t \<noteq> 0 then sampling_k (logged E1) a j t else Inr a"
      and ?step2.0 = "\<lambda>j t a. if t \<noteq> 0 then sampling_k (logged E2) a j t else Inr a",
      OF _ _ _ _ _ assms(3)])
  show "run_each (\<lambda>j a. rbind (at_index (using_t a) j)
      (\<lambda>row. run_each (\<lambda>t a. if t \<noteq> 0 then sampling_k (logged E1) a j t else Inr a) row a))
      [0 ..< length (x_ji s)] s = Inr a"
    using assms(1) by (simp add: table_phase_def)
  show "run_each (\<lambda>j a. rbind (at_index (using_t a) j)
      (\<lambda>row. run_each (\<lambda>t a. if t \<noteq> 0 then sampling_k (logged E2) a j t else Inr a) row a))
      [0 ..< length (x_ji s)] s = Inr b"
    using assms(2) by (simp add: table_phase_def)
  show "a' = b'"
    if "(if t \<noteq> 0 then sampling_k (logged E1) c j t else Inr c) = Inr a'"
      and "(if t \<noteq> 0 then sampling_k (logged E2) c j t else Inr c) = Inr b'"
      and "draws a' @ ya = draws b' @ yb" for j t c a' b' ya yb
    using that by (cases "t = 0") (auto dest: sampling_k_same)
qed (erule table_step_draws)+

lemma inference_same:
  assumes r1: "inference (logged E1) s = Inr a" and r2: "inference (logged E2) s = Inr b"
    and eq: "draws a = draws b"
  shows "a = b"
proof -
  from r1 obtain a1 where wa: "word_phase (logged E1) s = Inr a1"
    and ta: "table_phase (logged E1) a1 = Inr a"
    unfolding inference_def by (rule rbind_InrE)
  from r2 obtain b1 where wb: "word_phase (logged E2) s = Inr b1"
    and tb: "table_phase (logged E2) b1 = Inr b"
    unfolding inference_def by (rule rbind_InrE)
  from table_phase_draws [OF ta] obtain ea where ea: "draws a = draws a1 @ ea" by blast
  from table_phase_draws [OF tb] obtain eb where eb: "draws b = draws b1 @ eb" by blast
  from eq have "draws a1 @ ea = draws b1 @ eb" by (simp add: ea eb)
  with wa wb have "a1 = b1" by (rule word_phase_same)
  with ta tb show ?thesis using eq word_phase_same table_phase_same [of E1 b1 a E2 b "[]" "[]"]
    by simp
qed

text \<open>
  No operation on the state reads the generator: with another generator in its place, every
  operation does the same and leaves that generator in place.
\<close>

lemma with_generator_sel [simp]:
  "V (with_generator s g) = V s" "m (with_generator s g) = m s" "alpha' (with_generator s g) = alpha' s"
  "beta' (with_generator s g) = beta' s" "gamma' (with_generator s g) = gamma' s" "rng' (with_generator s g) = g"
  "using_t (with_generator s g) = using_t s" "dishes' (with_generator s g) = dishes' s"
  "x_ji (with_generator s g) = x_ji s" "k_jt (with_generator s g) = k_jt s" "n_jt (with_generator s g) = n_jt s"
  "n_jtv (with_generator s g) = n_jtv s" "m_k (with_generator s g) = m_k s" "n_k (with_generator s g) = n_k s"
  "n_kv' (with_generator s g) = n_kv' s" "t_ji (with_generator s g) = t_ji s"
  by (simp_all add: with_generator_def)

lemma with_generator_with_generator [simp]:
  "with_generator (with_generator s g) h = with_generator s h"
  by (simp add: with_generator_def)

lemma with_generator_rng_update [simp]:
  "(with_generator s g)\<lparr>rng' := h\<rparr> = with_generator s h"
  by (simp add: with_generator_def)

lemma rng_update_with_generator: "s\<lparr>rng' := h\<rparr> = with_generator s h"
  by (simp add: with_generator_def)

lemma map_sum_rbind:
  "map_sum id f (rbind r g) = rbind r (\<lambda>x. map_sum id f (g x))"
  by (cases r) simp_all

lemma rbind_map_sum:
  "rbind (map_sum id f r) g = rbind r (\<lambda>x. g (f x))"
  by (cases r) simp_all

lemma map_sum_if:
  "map_sum id f (if c then a else b) = (if c then map_sum id f a else map_sum id f b)"
  by simp

lemma rbind_if: "rbind (if c then a else b) f = (if c then rbind a f else rbind b f)"
  by simp

lemma rbind_assoc: "rbind (rbind r f) g = rbind r (\<lambda>x. rbind (f x) g)"
  by (cases r) simp_all

lemmas with_generator_simps = map_sum_rbind map_sum_if rbind_if rbind_assoc
  with_generator_def Let_def

lemma rbind_cong2:
  assumes "\<And>x. r = Inr x \<Longrightarrow> f x = g x"
  shows "rbind r f = rbind r g"
  using assms by (cases r) simp_all

lemma add_table_with_generator:
  "add_table (with_generator s g) j t i = map_sum id (\<lambda>z. with_generator z g) (add_table s j t i)"
  by (simp add: add_table_def with_generator_simps cong: if_cong)

lemma create_dish_with_generator:
  "create_dish (with_generator s g) = map_sum id (\<lambda>(k, z). (k, with_generator z g)) (create_dish s)"
  by (simp add: create_dish_def with_generator_simps cong: if_cong)

lemma create_table_with_generator:
  "create_table (with_generator s g) j k = map_sum id (\<lambda>(t, z). (t, with_generator z g)) (create_table s j k)"
  by (simp add: create_table_def with_generator_simps cong: if_cong)

lemma seat_at_dish_with_generator:
  "seat_at_dish (with_generator s g) j t k = map_sum id (\<lambda>z. with_generator z g) (seat_at_dish s j t k)"
  by (simp add: seat_at_dish_def with_generator_simps cong: if_cong)

lemma remove_table_with_generator:
  "remove_table (with_generator s g) j i = map_sum id (\<lambda>z. with_generator z g) (remove_table s j i)"
  by (simp add: remove_table_def delete_table_def delete_dish_def with_generator_simps cong: if_cong)

lemma leave_from_dish_with_generator:
  "leave_from_dish (with_generator s g) j t = map_sum id (\<lambda>z. with_generator z g) (leave_from_dish s j t)"
  by (simp add: leave_from_dish_def delete_dish_def with_generator_simps cong: if_cong)

lemma calc_f_k_with_generator: "calc_f_k (with_generator s g) v = calc_f_k s v"
  by (simp add: calc_f_k_def)

lemma calc_table_posterior_with_generator:
  "calc_table_posterior (with_generator s g) j f_k = calc_table_posterior s j f_k"
  by (simp add: calc_table_posterior_def)

lemma calc_dish_posterior_w_with_generator:
  "calc_dish_posterior_w (with_generator s g) f_k = calc_dish_posterior_w s f_k"
  by (simp add: calc_dish_posterior_w_def)

text \<open>
  So dropping the record commutes with every operation, with the two sampling steps, with the
  loops and with the sweep: the sweep with the recording sampler is the sweep with the
  sampler, and a list of draws next to it.
\<close>

lemma logged_sel [simp]:
  "fast_log (logged E) = fast_log E" "fast_lgamma (logged E) = fast_lgamma E"
  by (simp_all add: logged_def)

lemma unlogged_sel [simp]:
  "V (unlogged s) = V s" "m (unlogged s) = m s" "alpha' (unlogged s) = alpha' s"
  "beta' (unlogged s) = beta' s" "gamma' (unlogged s) = gamma' s"
  "rng' (unlogged s) = fst (rng' s)"
  "using_t (unlogged s) = using_t s" "dishes' (unlogged s) = dishes' s"
  "x_ji (unlogged s) = x_ji s" "k_jt (unlogged s) = k_jt s" "n_jt (unlogged s) = n_jt s"
  "n_jtv (unlogged s) = n_jtv s" "m_k (unlogged s) = m_k s" "n_k (unlogged s) = n_k s"
  "n_kv' (unlogged s) = n_kv' s" "t_ji (unlogged s) = t_ji s"
  by (simp_all add: unlogged_def)

lemma unlogged_with_generator [simp]:
  "unlogged (with_generator s g) = with_generator s (fst g)"
  by (simp add: unlogged_def)

lemma with_generator_unlogged [simp]:
  "with_generator (unlogged s) h = with_generator s h"
  by (simp add: unlogged_def)

lemma unlogged_rng_update [simp]: "(unlogged s)\<lparr>rng' := h\<rparr> = with_generator s h"
  by (simp add: unlogged_def)

lemma map_sum_map_sum:
  "map_sum id f (map_sum id g r) = map_sum id (\<lambda>x. f (g x)) r"
  by (cases r) simp_all

lemma map_sum_cong_Inr:
  assumes "\<And>x. r = Inr x \<Longrightarrow> f x = g x"
  shows "map_sum id f r = map_sum id g r"
  using assms by (cases r) simp_all

lemma leave_from_dish_unlogged:
  "leave_from_dish (unlogged s) j t = map_sum id unlogged (leave_from_dish s j t)"
  unfolding unlogged_def leave_from_dish_with_generator
  by (rule map_sum_cong_Inr) (simp add: leave_from_dish_frame)

lemma remove_table_unlogged:
  "remove_table (unlogged s) j i = map_sum id unlogged (remove_table s j i)"
  unfolding unlogged_def remove_table_with_generator
  by (rule map_sum_cong_Inr) (simp add: remove_table_frame)

lemma add_table_unlogged:
  "add_table (unlogged s) j t i = map_sum id unlogged (add_table s j t i)"
  unfolding unlogged_def add_table_with_generator
  by (rule map_sum_cong_Inr) (simp add: add_table_frame)

lemma seat_at_dish_unlogged:
  "seat_at_dish (unlogged s) j t k = map_sum id unlogged (seat_at_dish s j t k)"
  unfolding unlogged_def seat_at_dish_with_generator
  by (rule map_sum_cong_Inr) (simp add: seat_at_dish_frame)

lemma create_dish_unlogged:
  "create_dish (unlogged s) = map_sum id (\<lambda>kz. (fst kz, unlogged (snd kz))) (create_dish s)"
  unfolding unlogged_def create_dish_with_generator
  by (rule map_sum_cong_Inr) (auto dest: create_dish_Inr)

lemma create_table_unlogged:
  "create_table (unlogged s) j k =
     map_sum id (\<lambda>tz. (fst tz, unlogged (snd tz))) (create_table s j k)"
  unfolding unlogged_def create_table_with_generator
  by (rule map_sum_cong_Inr) (auto dest: create_table_Inr)

lemma dish_log_prior_unlogged:
  "dish_log_prior E (unlogged s) = dish_log_prior (logged E) s"
  by (simp add: fun_eq_iff dish_log_prior_def)

lemma word_term_unlogged: "word_term E (unlogged s) = word_term (logged E) s"
  by (simp add: fun_eq_iff word_term_def cong: list.case_cong)

lemma calc_dish_posterior_t_unlogged:
  "calc_dish_posterior_t E (unlogged s) j t = calc_dish_posterior_t (logged E) s j t"
  by (simp add: calc_dish_posterior_t_def dish_log_prior_unlogged word_term_unlogged)

lemma calc_unlogged:
  "calc_f_k (unlogged s) v = calc_f_k s v"
  "calc_table_posterior (unlogged s) j f_k = calc_table_posterior s j f_k"
  "calc_dish_posterior_w (unlogged s) f_k = calc_dish_posterior_w s f_k"
  by (simp_all add: unlogged_def calc_f_k_with_generator calc_table_posterior_with_generator
      calc_dish_posterior_w_with_generator)

lemma logged_sample:
  "sample_discrete (logged E) p g =
     (fst (sample_discrete E p (fst g)),
      (snd (sample_discrete E p (fst g)), snd g @ [sample_discrete E p (fst g)]))"
  by (simp add: logged_def split: prod.splits)

lemmas unlogged_simps = remove_table_unlogged leave_from_dish_unlogged add_table_unlogged
  seat_at_dish_unlogged create_dish_unlogged create_table_unlogged calc_unlogged
  calc_dish_posterior_t_unlogged calc_f_k_with_generator calc_table_posterior_with_generator
  calc_dish_posterior_w_with_generator add_table_with_generator seat_at_dish_with_generator create_dish_with_generator
  create_table_with_generator rbind_map_sum map_sum_rbind map_sum_if rbind_if map_sum_map_sum
  logged_sample case_prod_unfold Let_def rng_update_with_generator rbind_assoc

lemma sampling_k_unlogged:
  "sampling_k E (unlogged s) j t = map_sum id unlogged (sampling_k (logged E) s j t)"
  unfolding sampling_k_def
  by (simp add: unlogged_simps cong: if_cong)

lemma sampling_t_unlogged:
  "sampling_t E (unlogged s) j i = map_sum id unlogged (sampling_t (logged E) s j i)"
  unfolding sampling_t_def
  by (simp add: unlogged_simps cong: if_cong)

lemma run_each_unlogged:
  assumes "\<And>x t. f x (unlogged t) = map_sum id unlogged (g x t)"
  shows "run_each f xs (unlogged s) = map_sum id unlogged (run_each g xs s)"
proof (induction xs arbitrary: s)
  case Nil
  show ?case by simp
next
  case (Cons x xs)
  show ?case by (cases "g x s") (simp_all add: assms Cons.IH)
qed

lemma word_phase_unlogged:
  "word_phase E (unlogged s) = map_sum id unlogged (word_phase (logged E) s)"
proof -
  have inner: "run_each (\<lambda>i a. sampling_t E a j i) xs (unlogged t) =
      map_sum id unlogged (run_each (\<lambda>i a. sampling_t (logged E) a j i) xs t)" for j xs t
    by (rule run_each_unlogged) (rule sampling_t_unlogged)
  show ?thesis
    unfolding word_phase_def unlogged_sel
    by (rule run_each_unlogged) (simp add: inner map_sum_rbind)
qed

lemma table_phase_unlogged:
  "table_phase E (unlogged s) = map_sum id unlogged (table_phase (logged E) s)"
proof -
  have inner: "run_each (\<lambda>t a. if t \<noteq> 0 then sampling_k E a j t else Inr a) xs (unlogged t) =
      map_sum id unlogged
        (run_each (\<lambda>t a. if t \<noteq> 0 then sampling_k (logged E) a j t else Inr a) xs t)"
    for j xs t
    by (rule run_each_unlogged) (simp add: sampling_k_unlogged)
  show ?thesis
    unfolding table_phase_def unlogged_sel
    by (rule run_each_unlogged) (simp only: inner map_sum_rbind unlogged_sel)
qed

lemma inference_unlogged:
  "inference E (unlogged s) = map_sum id unlogged (inference (logged E) s)"
  unfolding inference_def
  by (simp add: word_phase_unlogged table_phase_unlogged rbind_map_sum map_sum_rbind)

lemma with_generator_same [simp]: "with_generator s (rng' s) = s"
  by (simp add: with_generator_def)

lemma unlogged_start: "unlogged (with_generator s (rng' s, L)) = s"
  by simp

text \<open>Two sweeps from one state that took the same draws end in one state.\<close>

lemma inference_logged_run:
  assumes "inference E s = Inr a"
  obtains a' where "inference (logged E) (with_generator s (rng' s, [])) = Inr a'"
    and "unlogged a' = a" and "sweep_draws E s = draws a'"
proof -
  have "map_sum id unlogged (inference (logged E) (with_generator s (rng' s, []))) = Inr a"
    using assms inference_unlogged [of E "with_generator s (rng' s, [])"] by simp
  then obtain a' where "inference (logged E) (with_generator s (rng' s, [])) = Inr a'"
    and "unlogged a' = a"
    by (cases "inference (logged E) (with_generator s (rng' s, []))") auto
  then show thesis by (auto intro: that simp: sweep_draws_def)
qed

lemma inference_same_draws:
  assumes "inference E1 s = Inr a" and "inference E2 s = Inr b"
    and "sweep_draws E1 s = sweep_draws E2 s"
  shows "a = b"
proof -
  from assms(1) obtain a' where a: "inference (logged E1) (with_generator s (rng' s, [])) = Inr a'"
    "unlogged a' = a" "sweep_draws E1 s = draws a'"
    by (rule inference_logged_run)
  from assms(2) obtain b' where b: "inference (logged E2) (with_generator s (rng' s, [])) = Inr b'"
    "unlogged b' = b" "sweep_draws E2 s = draws b'"
    by (rule inference_logged_run)
  from assms(3) have "draws a' = draws b'" by (simp add: a(3) b(3))
  with a(1) b(1) have "a' = b'" by (rule inference_same)
  then show ?thesis using a(2) b(2) by simp
qed

text \<open>The sweeps of the example, by computation.\<close>

lemmas sweep_eval = eval_defs inference_def word_phase_def table_phase_def state_ctor_def
  two_words_def counting_sampler_def short_vector_sampler_def last_index_sampler_def
  logged_def with_generator_def draws_def sweep_draws_def

lemma two_words_counting:
  "\<exists>a. inference counting_sampler two_words = Inr a \<and> using_t a = [[0, 1, 2]]"
  by (simp add: sweep_eval)

lemma two_words_short_vector: "\<exists>a. inference short_vector_sampler two_words = Inr a"
  by (simp add: sweep_eval)

lemma two_words_last_index:
  "\<exists>a. inference last_index_sampler two_words = Inr a \<and> using_t a = [[0, 1]]"
  by (simp add: sweep_eval)

lemma two_words_counting_draws:
  "sweep_draws counting_sampler two_words = [(0, 1), (0, 2), (0, 3), (0, 4), (0, 5), (0, 6)]"
  by (simp add: sweep_eval)

lemma two_words_short_vector_draws:
  "sweep_draws short_vector_sampler two_words =
     [(0, 1), (0, 2), (0, 3), (0, 4), (0, 5), (0, 6)]"
  by (simp add: sweep_eval)

lemma two_words_last_index_draws:
  "sweep_draws last_index_sampler two_words = [(0, 1), (0, 2), (1, 3), (0, 4)]"
  by (simp add: sweep_eval)

text \<open>
  Claim C8. Two runs of a sweep from one state, the generator included, are the sweeps with
  two samplers \<open>E1\<close> and \<open>E2\<close>, of which nothing is assumed: they may answer the same request
  differently. If both runs return and they took the same draws in the same order,
  \<open>sweep_draws E1 s = sweep_draws E2 s\<close>, then they end in the same state: the state after
  a sweep depends on the sampler through the sequence of its draws only. The draws are those
  of the run itself: the sweep with the recording sampler, its record dropped, is the sweep
  with the sampler. And from a reachable state the sweep is the word phase, \<^verbatim>\<open>sampling_t\<close>
  at every word of every document in document order, followed on the state the word phase
  ends in by the table phase, \<^verbatim>\<open>sampling_k\<close> at every active table of every document.
\<close>

theorem sweep_determined_by_draws:
  "(inference E1 s = Inr a \<and> inference E2 s = Inr b \<and>
      sweep_draws E1 s = sweep_draws E2 s \<longrightarrow> a = b) \<and>
   map_sum id unlogged (inference (logged E1) l) = inference E1 (unlogged l) \<and>
   (reachable s \<longrightarrow>
      inference E1 s =
        rbind (run_each (\<lambda>(j, i) a. sampling_t E1 a j i) (word_positions s) s) (\<lambda>s1.
          run_each (\<lambda>(j, t) a. sampling_k E1 a j t) (table_positions s1) s1))"
proof (intro conjI impI)
  assume "inference E1 s = Inr a \<and> inference E2 s = Inr b \<and>
      sweep_draws E1 s = sweep_draws E2 s"
  then show "a = b" by (elim conjE) (rule inference_same_draws)
next
  show "map_sum id unlogged (inference (logged E1) l) = inference E1 (unlogged l)"
    by (simp add: inference_unlogged)
next
  assume r: "reachable s"
  have "table_phase E1 s1 = run_each (\<lambda>(j, t) a. sampling_k E1 a j t) (table_positions s1) s1"
    if "word_phase E1 s = Inr s1" for s1
  proof -
    have "reachable s1" using r that by (rule word_phase_reachable)
    then have "shape_ok s1" by (rule reachable_shape)
    then have "length (using_t s1) = length (x_ji s1)"
      by (simp add: shape_ok_def doc_shape_def)
    then show ?thesis by (rule table_phase_flat)
  qed
  then have "inference E1 s =
      rbind (word_phase E1 s) (\<lambda>s1.
        run_each (\<lambda>(j, t) a. sampling_k E1 a j t) (table_positions s1) s1)"
    unfolding inference_def by (cases "word_phase E1 s") simp_all
  then show "inference E1 s =
      rbind (run_each (\<lambda>(j, i) a. sampling_t E1 a j i) (word_positions s) s) (\<lambda>s1.
        run_each (\<lambda>(j, t) a. sampling_k E1 a j t) (table_positions s1) s1)"
    by (simp add: word_phase_flat)
qed

theorem sweep_determined_by_draws_witness:
  "fst (sample_discrete counting_sampler [Fin 0, Fin 0, Fin 0] 0) = 0 \<and>
   fst (sample_discrete short_vector_sampler [Fin 0, Fin 0, Fin 0] 0) = 1 \<and>
   sweep_draws counting_sampler two_words = sweep_draws short_vector_sampler two_words \<and>
   (\<exists>a. inference counting_sampler two_words = Inr a \<and>
        inference short_vector_sampler two_words = Inr a) \<and>
   inference counting_sampler two_words =
     rbind (run_each (\<lambda>(j, i) a. sampling_t counting_sampler a j i)
              (word_positions two_words) two_words) (\<lambda>s1.
       run_each (\<lambda>(j, t) a. sampling_k counting_sampler a j t) (table_positions s1) s1)"
proof -
  obtain a where a: "inference counting_sampler two_words = Inr a"
    using two_words_counting by blast
  obtain b where b: "inference short_vector_sampler two_words = Inr b"
    using two_words_short_vector by blast
  have d: "sweep_draws counting_sampler two_words = sweep_draws short_vector_sampler two_words"
    by (simp add: two_words_counting_draws two_words_short_vector_draws)
  have r: "reachable two_words"
    unfolding two_words_def by (rule reachable.init)
  note inst = sweep_determined_by_draws [where ?E1.0 = counting_sampler and s = two_words
      and a = a and ?E2.0 = short_vector_sampler and b = b]
  have "a = b"
    using inst [THEN conjunct1] a b d by simp
  moreover note inst [THEN conjunct2, THEN conjunct2, THEN mp, OF r]
  ultimately show ?thesis
    using a b d by (simp add: counting_sampler_def short_vector_sampler_def)
qed

text \<open>
  The condition on the draws cannot be dropped: from the same state, a sampler that draws
  other indices takes the sweep to another state.
\<close>

lemma sweep_differs_with_draws:
  "sweep_draws counting_sampler two_words \<noteq> sweep_draws last_index_sampler two_words \<and>
   (\<exists>a b. inference counting_sampler two_words = Inr a \<and>
      inference last_index_sampler two_words = Inr b \<and> a \<noteq> b)"
proof -
  obtain a where a: "inference counting_sampler two_words = Inr a" "using_t a = [[0, 1, 2]]"
    using two_words_counting by blast
  obtain b where b: "inference last_index_sampler two_words = Inr b" "using_t b = [[0, 1]]"
    using two_words_last_index by blast
  have "a \<noteq> b" using a(2) b(2) by auto
  then show ?thesis
    using a(1) b(1) by (auto simp: two_words_counting_draws two_words_last_index_draws)
qed

end
